theory Spec2Isabelle
  imports Complex_Main "HOL-Library.Log_Nat"
begin

section \<open>Python values, dictionaries and exceptions\<close>

text \<open>
  The program is Python. Its dictionaries map string keys to values of mixed type, so a
  value is a tagged union and a dictionary a partial map from strings. A finite float is
  modelled by the rational number it denotes (every finite binary64 value is a rational);
  the representable ones are singled out by \<open>is_double\<close> below. Signed zeros, infinities
  and NaN are outside this model.
\<close>

datatype pyval = IntV int | FloatV rat | StrV string

type_synonym dict = "string \<rightharpoonup> pyval"

text \<open>
  A string whose characters matter beyond ASCII (a date string, and a message that quotes
  it) is the list of its code points.
\<close>

type_synonym ustring = "nat list"

definition ascii :: "string \<Rightarrow> ustring" where
  "ascii s = map of_char s"

datatype error =
    KeyError string
  | ValueError ustring
  | TypeError
  | IndexError
  | OverflowError

text \<open>Subscription \<open>d[k]\<close> raises \<open>KeyError(k)\<close> when the key is absent.\<close>

definition subscript :: "dict \<Rightarrow> string \<Rightarrow> error + pyval" where
  "subscript d k = (case d k of None \<Rightarrow> Inl (KeyError k) | Some v \<Rightarrow> Inr v)"

section \<open>agent/utils.py: validate_user_data\<close>

definition required_fields :: "string list" where
  "required_fields =
     [''user_id'', ''age'', ''gender'', ''last_active'', ''interactions'', ''purchases'']"

text \<open>The \<open>for\<close> loop over the field list, returning at the first absent field.\<close>

fun validate_loop :: "string list \<Rightarrow> dict \<Rightarrow> bool" where
  "validate_loop [] user_data = True"
| "validate_loop (field # fields) user_data =
     (if user_data field = None then False else validate_loop fields user_data)"

definition validate_user_data :: "dict \<Rightarrow> bool" where
  "validate_user_data user_data = validate_loop required_fields user_data"

section \<open>Binary64 floats\<close>

text \<open>
  The finite binary64 values are the rationals \<open>m * 2^e\<close> with \<open>|m| < 2^53\<close> and
  \<open>-1074 \<le> e \<le> 971\<close>.
\<close>

definition is_double :: "rat \<Rightarrow> bool" where
  "is_double q \<longleftrightarrow>
     (\<exists>e\<in>{- 1074..971}. \<exists>m\<in>{- (2 ^ 53 - 1)..2 ^ 53 - 1}. q = of_int m * 2 powi e)"

text \<open>Rounding a rational to the nearest integer, ties to the even neighbour.\<close>

definition round_half_even :: "rat \<Rightarrow> int" where
  "round_half_even x =
     (let f = \<lfloor>x\<rfloor>; r = x - of_int f
      in if r < 1 / 2 then f else if 1 / 2 < r then f + 1 else if even f then f else f + 1)"

text \<open>For \<open>q > 0\<close>, the exponent \<open>E\<close> with \<open>2^E \<le> q < 2^(E+1)\<close>.\<close>

definition floor_log2 :: "rat \<Rightarrow> int" where
  "floor_log2 q =
     (if 1 \<le> q then int (floorlog 2 (nat \<lfloor>q\<rfloor>)) - 1
      else - int (floorlog 2 (nat (\<lceil>1 / q\<rceil> - 1))))"

text \<open>
  Correct rounding of a rational to binary64 (round to nearest, ties to even), as the
  interpreter's string-to-float conversion does for a decimal literal and for the decimal
  string that \<open>round\<close> produces. \<open>None\<close> is the out-of-range result (magnitude
  \<open>2^1024\<close> after rounding).
\<close>

definition to_double :: "rat \<Rightarrow> rat option" where
  "to_double q =
     (if q = 0 then Some 0
      else let E = floor_log2 \<bar>q\<bar>;
               e = max E (- 1022) - 52;
               r = of_int (round_half_even (q / 2 powi e)) * 2 powi e
           in if 2 ^ 1024 \<le> \<bar>r\<bar> then None else Some r)"

text \<open>
  The float that the literal \<open>0.7\<close> in \<open>agent.py\<close> denotes: the binary64 value nearest
  to \<open>7/10\<close> (lemma \<open>threshold_literal\<close> below).
\<close>

definition threshold :: rat where
  "threshold = 3152519739159347 / 4503599627370496"

text \<open>
  The builtin \<open>round(x, ndigits)\<close> for \<open>ndigits \<ge> 0\<close> small enough that the
  interpreter's shortcut for huge \<open>ndigits\<close> does not apply (the program passes 2):
  an int is returned as it is; a float is rounded to \<open>ndigits\<close> decimal places, ties
  to even, on its exact value, and the decimal result converted back to binary64, with
  \<open>OverflowError\<close> when that is out of range; a string has no \<open>__round__\<close>.
\<close>

fun py_round :: "pyval \<Rightarrow> nat \<Rightarrow> error + pyval" where
  "py_round (IntV n) ndigits = Inr (IntV n)"
| "py_round (FloatV x) ndigits =
     (case to_double (of_int (round_half_even (x * 10 ^ ndigits)) / 10 ^ ndigits) of
        None \<Rightarrow> Inl OverflowError
      | Some r \<Rightarrow> Inr (FloatV r))"
| "py_round (StrV s) ndigits = Inl TypeError"

text \<open>
  The comparison \<open>v > c\<close> of a value with a float \<open>c\<close>: numbers compare by their exact
  values, a string against a float raises \<open>TypeError\<close>.
\<close>

fun py_gt_float :: "pyval \<Rightarrow> rat \<Rightarrow> error + bool" where
  "py_gt_float (IntV n) c = Inr (c < of_int n)"
| "py_gt_float (FloatV q) c = Inr (c < q)"
| "py_gt_float (StrV s) c = Inl TypeError"

text \<open>Sequencing of computations that may raise: the first exception propagates.\<close>

fun bind :: "error + 'a \<Rightarrow> ('a \<Rightarrow> error + 'b) \<Rightarrow> error + 'b" where
  "bind (Inl e) f = Inl e"
| "bind (Inr x) f = f x"

section \<open>kumo/kumo_client.py: the mock prediction client\<close>

definition actions :: "string list" where
  "actions = [''offer_discount'', ''recommend_product'', ''send_message'']"

text \<open>
  \<open>random.choice(seq)\<close> returns \<open>seq[i]\<close> for the index \<open>i\<close> that the generator draws
  below \<open>len(seq)\<close>, and raises \<open>IndexError\<close> on an empty sequence. The drawn index is
  an input of the model.
\<close>

definition random_choice :: "'a list \<Rightarrow> nat \<Rightarrow> error + 'a" where
  "random_choice seq i = (if i < length seq then Inr (seq ! i) else Inl IndexError)"

text \<open>
  \<open>KumoClient.predict\<close>. The two random draws are inputs: \<open>u\<close> is the float returned by
  \<open>random.uniform(0, 1)\<close> and \<open>i\<close> the index drawn by \<open>random.choice\<close>. The features
  are not read.
\<close>

definition KumoClient_predict :: "rat \<Rightarrow> nat \<Rightarrow> dict \<Rightarrow> error + dict" where
  "KumoClient_predict u i user_features =
     bind (py_round (FloatV u) 2) (\<lambda>score.
     bind (random_choice actions i) (\<lambda>action.
     Inr [''engagement_score'' \<mapsto> score, ''recommended_action'' \<mapsto> StrV action]))"

section \<open>agent/agent.py: PersonalizedAgent.recommend\<close>

text \<open>
  The client held in \<open>self.kumo\<close> is a parameter: its \<open>predict\<close> method maps the
  features to a prediction or raises. The conditional expression evaluates its condition
  first and only then the selected branch; the dictionary display evaluates its values
  from left to right.
\<close>

definition recommend :: "(dict \<Rightarrow> error + dict) \<Rightarrow> dict \<Rightarrow> error + dict" where
  "recommend kumo user_data =
     bind (kumo user_data) (\<lambda>prediction.
     bind (subscript prediction ''engagement_score'') (\<lambda>score.
     bind (py_gt_float score threshold) (\<lambda>exceeds.
     bind (if exceeds then subscript prediction ''recommended_action''
           else Inr (StrV ''send_message'')) (\<lambda>action.
     bind (subscript user_data ''user_id'') (\<lambda>uid.
     bind (subscript prediction ''engagement_score'') (\<lambda>score'.
     Inr [''user_id'' \<mapsto> uid, ''action'' \<mapsto> action, ''score'' \<mapsto> score']))))))"

text \<open>The entry stored under a key of a returned dictionary; none when the call raised.\<close>

fun entry :: "error + dict \<Rightarrow> string \<Rightarrow> pyval option" where
  "entry (Inl e) k = None"
| "entry (Inr d) k = d k"


section \<open>agent/utils.py: format_recommendation_output\<close>

text \<open>
  The arguments are passed through as they are; the key of the rounded score is
  \<open>engagement_score\<close>.
\<close>

definition format_recommendation_output :: "pyval \<Rightarrow> pyval \<Rightarrow> pyval \<Rightarrow> error + dict" where
  "format_recommendation_output user_id action score =
     bind (py_round score 2) (\<lambda>rounded.
     Inr [''user_id'' \<mapsto> user_id, ''action'' \<mapsto> action, ''engagement_score'' \<mapsto> rounded])"

section \<open>The date type of the standard library\<close>

text \<open>
  \<open>datetime.date\<close>: a day of the proleptic Gregorian calendar with
  \<open>1 \<le> year \<le> 9999\<close>. The constructor checks the fields; \<open>toordinal\<close> numbers the
  days from 0001-01-01, which is day 1, with the library's tables. The difference of two
  dates is a \<open>timedelta\<close> whose \<open>days\<close> is the difference of the ordinals.
\<close>

record date =
  year :: int
  month :: int
  day :: int

definition is_leap :: "int \<Rightarrow> bool" where
  "is_leap y \<longleftrightarrow> y mod 4 = 0 \<and> (y mod 100 \<noteq> 0 \<or> y mod 400 = 0)"

definition DAYS_IN_MONTH :: "int list" where
  "DAYS_IN_MONTH = [- 1, 31, 28, 31, 30, 31, 30, 31, 31, 30, 31, 30, 31]"

definition DAYS_BEFORE_MONTH :: "int list" where
  "DAYS_BEFORE_MONTH = [- 1, 0, 31, 59, 90, 120, 151, 181, 212, 243, 273, 304, 334]"

definition days_before_year :: "int \<Rightarrow> int" where
  "days_before_year y = (let y1 = y - 1 in y1 * 365 + y1 div 4 - y1 div 100 + y1 div 400)"

definition days_in_month :: "int \<Rightarrow> int \<Rightarrow> int" where
  "days_in_month y m = (if m = 2 \<and> is_leap y then 29 else DAYS_IN_MONTH ! nat m)"

definition days_before_month :: "int \<Rightarrow> int \<Rightarrow> int" where
  "days_before_month y m = DAYS_BEFORE_MONTH ! nat m + (if 2 < m \<and> is_leap y then 1 else 0)"

definition new_date :: "int \<Rightarrow> int \<Rightarrow> int \<Rightarrow> error + date" where
  "new_date y m d =
     (if \<not> (1 \<le> y \<and> y \<le> 9999) then Inl (ValueError (ascii ''year is out of range''))
      else if \<not> (1 \<le> m \<and> m \<le> 12) then Inl (ValueError (ascii ''month must be in 1..12''))
      else if \<not> (1 \<le> d \<and> d \<le> days_in_month y m)
        then Inl (ValueError (ascii ''day is out of range for month''))
      else Inr \<lparr>year = y, month = m, day = d\<rparr>)"

definition toordinal :: "date \<Rightarrow> int" where
  "toordinal dt = days_before_year (year dt) + days_before_month (year dt) (month dt) + day dt"

section \<open>Decimal digits of a Python string\<close>

text \<open>
  Which code points are decimal digits, and with what value, is a table of the
  interpreter's Unicode database and not of the program: it is the parameter \<open>dec\<close> of
  the functions below. \<open>\d\<close> in a regular expression on a string matches exactly these
  code points, and \<open>int\<close> converts them. What every version of the table has in common
  is all that the properties below assume: the ASCII digits have their values, and the
  blank is not a digit.
\<close>

definition decimal_table :: "(nat \<Rightarrow> nat option) \<Rightarrow> bool" where
  "decimal_table dec \<longleftrightarrow>
     list_all (\<lambda>c. dec c = Some (c - 48)) (ascii ''0123456789'') \<and> dec 32 = None"

text \<open>
  Three blocks of the table, for the examples: the ASCII digits, the Arabic-Indic digits
  (from U+0660) and the fullwidth digits (from U+FF10).
\<close>

definition some_decimals :: "nat \<Rightarrow> nat option" where
  "some_decimals c =
     (if 48 \<le> c \<and> c \<le> 57 then Some (c - 48)
      else if 1632 \<le> c \<and> c \<le> 1641 then Some (c - 1632)
      else if 65296 \<le> c \<and> c \<le> 65305 then Some (c - 65296)
      else None)"

definition digit :: "(nat \<Rightarrow> nat option) \<Rightarrow> nat \<Rightarrow> bool" where
  "digit dec c \<longleftrightarrow> dec c \<noteq> None"

definition dval :: "(nat \<Rightarrow> nat option) \<Rightarrow> nat \<Rightarrow> int" where
  "dval dec c = (case dec c of None \<Rightarrow> 0 | Some v \<Rightarrow> int v)"

definition decimal_value :: "(nat \<Rightarrow> nat option) \<Rightarrow> ustring \<Rightarrow> int" where
  "decimal_value dec t = foldl (\<lambda>n c. 10 * n + dval dec c) 0 t"

text \<open>
  \<open>int(text)\<close>: blanks before the digits are skipped, and anything but digits after
  them is a \<open>ValueError\<close>.
\<close>

definition py_int :: "(nat \<Rightarrow> nat option) \<Rightarrow> ustring \<Rightarrow> error + int" where
  "py_int dec text =
     (let t = dropWhile (\<lambda>c. c = 32) text
      in if t \<noteq> [] \<and> list_all (digit dec) t then Inr (decimal_value dec t)
         else Inl (ValueError (ascii ''invalid literal for int() with base 10'')))"

section \<open>strptime with the format \<open>%Y-%m-%d\<close>\<close>

text \<open>
  The library compiles the format into the regular expression
  \<^verbatim>\<open>(?P<Y>\d\d\d\d)-(?P<m>1[0-2]|0[1-9]|[1-9])-(?P<d>3[0-1]|[1-2]\d|0[1-9]|[1-9]| [1-9])\<close>
  and matches it at the start of the string. A matcher returns the list of its matches
  (the text of the group and the rest of the string) in the order in which a backtracking
  matcher tries them: the alternatives of a group from left to right. The first match of
  the whole expression is the one found. A bracketed class holds ASCII characters only;
  \<open>\d\<close> is any decimal digit of the table.
\<close>

definition one_of :: "string \<Rightarrow> nat \<Rightarrow> bool" where
  "one_of cs c \<longleftrightarrow> c \<in> set (ascii cs)"

fun re_one :: "(nat \<Rightarrow> bool) \<Rightarrow> ustring \<Rightarrow> (ustring \<times> ustring) list" where
  "re_one p (a # rest) = (if p a then [([a], rest)] else [])"
| "re_one p [] = []"

fun re_two :: "(nat \<Rightarrow> bool) \<Rightarrow> (nat \<Rightarrow> bool) \<Rightarrow> ustring \<Rightarrow> (ustring \<times> ustring) list" where
  "re_two p q (a # b # rest) = (if p a \<and> q b then [([a, b], rest)] else [])"
| "re_two p q s = []"

fun re_Y :: "(nat \<Rightarrow> nat option) \<Rightarrow> ustring \<Rightarrow> (ustring \<times> ustring) list" where
  "re_Y dec (a # b # c # d # rest) =
     (if digit dec a \<and> digit dec b \<and> digit dec c \<and> digit dec d then [([a, b, c, d], rest)]
      else [])"
| "re_Y dec s = []"

definition re_m :: "ustring \<Rightarrow> (ustring \<times> ustring) list" where
  "re_m s = re_two (one_of ''1'') (one_of ''012'') s
          @ re_two (one_of ''0'') (one_of ''123456789'') s
          @ re_one (one_of ''123456789'') s"

definition re_d :: "(nat \<Rightarrow> nat option) \<Rightarrow> ustring \<Rightarrow> (ustring \<times> ustring) list" where
  "re_d dec s = re_two (one_of ''3'') (one_of ''01'') s
          @ re_two (one_of ''12'') (digit dec) s
          @ re_two (one_of ''0'') (one_of ''123456789'') s
          @ re_one (one_of ''123456789'') s
          @ re_two (one_of '' '') (one_of ''123456789'') s"

fun re_lit :: "nat \<Rightarrow> ustring \<Rightarrow> ustring list" where
  "re_lit c (a # rest) = (if a = c then [rest] else [])"
| "re_lit c [] = []"

definition format_regex ::
  "(nat \<Rightarrow> nat option) \<Rightarrow> ustring \<Rightarrow> (ustring \<times> ustring \<times> ustring \<times> ustring) list" where
  "format_regex dec s =
     [(Y, m, d, r5). (Y, r1) \<leftarrow> re_Y dec s, r2 \<leftarrow> re_lit 45 r1, (m, r3) \<leftarrow> re_m r2,
                      r4 \<leftarrow> re_lit 45 r3, (d, r5) \<leftarrow> re_d dec r4]"

text \<open>
  No match, or a match that leaves characters over, is a \<open>ValueError\<close>; so is a
  date that the constructor rejects. The groups are converted with \<open>int\<close>.
\<close>

definition strptime :: "(nat \<Rightarrow> nat option) \<Rightarrow> ustring \<Rightarrow> error + date" where
  "strptime dec data_string =
     (case format_regex dec data_string of
        [] \<Rightarrow> Inl (ValueError (ascii ''time data does not match format''))
      | (Y, m, d, rest) # others \<Rightarrow>
          if rest \<noteq> [] then Inl (ValueError (ascii ''unconverted data remains: '' @ rest))
          else bind (py_int dec Y) (\<lambda>year.
               bind (py_int dec m) (\<lambda>month.
               bind (py_int dec d) (\<lambda>day.
               new_date year month day))))"

section \<open>agent/utils.py: parse_date and days_since_last_active\<close>

text \<open>
  \<open>parse_date\<close> replaces any \<open>ValueError\<close> of \<open>strptime\<close> by its own, whose message
  holds the input.
\<close>

definition parse_date :: "(nat \<Rightarrow> nat option) \<Rightarrow> ustring \<Rightarrow> error + date" where
  "parse_date dec date_str =
     (case strptime dec date_str of
        Inl (ValueError msg) \<Rightarrow>
          Inl (ValueError
            (ascii ''Invalid date format: '' @ date_str @ ascii '', expected YYYY-MM-DD''))
      | Inl e \<Rightarrow> Inl e
      | Inr dt \<Rightarrow> Inr dt)"

text \<open>The current date \<open>datetime.date.today()\<close> is an input of the model.\<close>

definition days_since_last_active ::
  "(nat \<Rightarrow> nat option) \<Rightarrow> date \<Rightarrow> ustring \<Rightarrow> error + int" where
  "days_since_last_active dec today last_active_date =
     bind (parse_date dec last_active_date) (\<lambda>last_active.
     Inr (toordinal today - toordinal last_active))"

section \<open>Notions used to state the properties of the date functions\<close>

text \<open>
  The dates the constructor accepts, and the texts of a date: the year as four decimal
  digits of any script, a hyphen, the month as one ASCII digit or two, a hyphen, and the
  day as one ASCII digit, with an ASCII zero or a blank before it, as 30 or 31 in ASCII,
  or as an ASCII 1 or 2 followed by a decimal digit of any script.
\<close>

definition valid_date :: "date \<Rightarrow> bool" where
  "valid_date dt \<longleftrightarrow>
     1 \<le> year dt \<and> year dt \<le> 9999 \<and> 1 \<le> month dt \<and> month dt \<le> 12 \<and>
     1 \<le> day dt \<and> day dt \<le> days_in_month (year dt) (month dt)"

definition is_year_text :: "(nat \<Rightarrow> nat option) \<Rightarrow> int \<Rightarrow> ustring \<Rightarrow> bool" where
  "is_year_text dec y t \<longleftrightarrow> length t = 4 \<and> list_all (digit dec) t \<and> decimal_value dec t = y"

definition month_texts :: "int \<Rightarrow> ustring list" where
  "month_texts m =
     (if m < 10 then [[48 + nat m], [48, 48 + nat m]] else [[49, 48 + nat (m - 10)]])"

definition is_day_text :: "(nat \<Rightarrow> nat option) \<Rightarrow> int \<Rightarrow> ustring \<Rightarrow> bool" where
  "is_day_text dec d t \<longleftrightarrow>
     1 \<le> d \<and> d < 10 \<and> t \<in> set [[48 + nat d], [48, 48 + nat d], [32, 48 + nat d]]
     \<or> 30 \<le> d \<and> d \<le> 31 \<and> t = [51, 48 + nat (d - 30)]
     \<or> (case t of
          [a, b] \<Rightarrow> (a = 49 \<or> a = 50) \<and> digit dec b \<and> 10 * (int a - 48) + dval dec b = d
        | _ \<Rightarrow> False)"

definition date_text :: "(nat \<Rightarrow> nat option) \<Rightarrow> date \<Rightarrow> ustring \<Rightarrow> bool" where
  "date_text dec dt s \<longleftrightarrow>
     list_ex (\<lambda>M. is_year_text dec (year dt) (take 4 s)
                \<and> take (length M + 2) (drop 4 s) = 45 # M @ [45]
                \<and> is_day_text dec (day dt) (drop (length M + 6) s))
       (month_texts (month dt))"

text \<open>
  The format as the specification words it: exactly \<open>YYYY-MM-DD\<close>, four, two and two
  ASCII digits between hyphens, with the month in \<open>1..12\<close> and the day within the month.
\<close>

definition ascii_value :: "ustring \<Rightarrow> int" where
  "ascii_value t = foldl (\<lambda>n c. 10 * n + (int c - 48)) 0 t"

definition spec_strict_ymd :: "ustring \<Rightarrow> bool" where
  "spec_strict_ymd s \<longleftrightarrow>
     length s = 10 \<and> s ! 4 = 45 \<and> s ! 7 = 45 \<and>
     list_all (one_of ''0123456789'') (take 4 s @ take 2 (drop 5 s) @ drop 8 s) \<and>
     1 \<le> ascii_value (take 2 (drop 5 s)) \<and> ascii_value (take 2 (drop 5 s)) \<le> 12 \<and>
     1 \<le> ascii_value (drop 8 s) \<and>
     ascii_value (drop 8 s) \<le>
       days_in_month (ascii_value (take 4 s)) (ascii_value (take 2 (drop 5 s)))"

text \<open>The calendar order and the calendar successor.\<close>

definition date_less :: "date \<Rightarrow> date \<Rightarrow> bool" where
  "date_less a b \<longleftrightarrow>
     year a < year b \<or> year a = year b \<and>
       (month a < month b \<or> month a = month b \<and> day a < day b)"

definition next_day :: "date \<Rightarrow> date" where
  "next_day dt =
     (if day dt < days_in_month (year dt) (month dt) then dt\<lparr>day := day dt + 1\<rparr>
      else if month dt < 12 then dt\<lparr>month := month dt + 1, day := 1\<rparr>
      else \<lparr>year = year dt + 1, month = 1, day = 1\<rparr>)"

section \<open>app/main.py: the user table and the endpoint\<close>

text \<open>
  Modelled from the spec: the data file \<open>../data/mock_user_data.csv\<close> read at start-up is
  not among the sources. Its columns are the six fields of a user record (integer
  \<open>user_id\<close>, \<open>age\<close>, \<open>interactions\<close> and \<open>purchases\<close>, string \<open>gender\<close> and
  \<open>last_active\<close>), so a row of the frame is a record of these, and \<open>row.to_dict()\<close>
  the dictionary of its columns.
\<close>

record user_row =
  row_user_id :: int
  row_age :: int
  row_gender :: string
  row_last_active :: string
  row_interactions :: int
  row_purchases :: int

definition to_dict :: "user_row \<Rightarrow> dict" where
  "to_dict row =
     [''user_id'' \<mapsto> IntV (row_user_id row), ''age'' \<mapsto> IntV (row_age row),
      ''gender'' \<mapsto> StrV (row_gender row), ''last_active'' \<mapsto> StrV (row_last_active row),
      ''interactions'' \<mapsto> IntV (row_interactions row),
      ''purchases'' \<mapsto> IntV (row_purchases row)]"

text \<open>
  The dictionary comprehension over the rows, keyed by \<open>row.user_id\<close>: a later row
  replaces an earlier one with the same key.
\<close>

definition load_users :: "user_row list \<Rightarrow> (int \<rightharpoonup> dict)" where
  "load_users rows = foldl (\<lambda>users row. users(row_user_id row \<mapsto> to_dict row)) Map.empty rows"

text \<open>
  The view function of \<open>GET /recommend/<int:user_id>\<close>. \<open>users.get\<close> gives \<open>None\<close>
  for an absent key, and \<open>not user_data\<close> holds for \<open>None\<close> and for an empty
  dictionary. The response is the JSON object of a dictionary with a status; a return
  without a status is 200. An exception of \<open>recommend\<close> leaves the view function. The
  client of the module-level agent is a parameter.
\<close>

definition recommend_endpoint ::
  "(int \<rightharpoonup> dict) \<Rightarrow> (dict \<Rightarrow> error + dict) \<Rightarrow> int \<Rightarrow> error + dict \<times> nat" where
  "recommend_endpoint users kumo user_id =
     (case users user_id of
        None \<Rightarrow> Inr ([''error'' \<mapsto> StrV ''User not found''], 404)
      | Some user_data \<Rightarrow>
          if user_data = Map.empty then Inr ([''error'' \<mapsto> StrV ''User not found''], 404)
          else bind (recommend kumo user_data) (\<lambda>recommendation. Inr (recommendation, 200)))"

section \<open>recommend over a store of dictionary objects\<close>

text \<open>
  Python passes a dictionary by reference, so whether \<open>recommend\<close> changes its argument
  is a question about the store. The store is the list of the dictionary objects; a
  reference is an index; a dictionary display allocates a new object at the end. The
  client gets the reference to the record and returns a reference to its prediction, with
  the store it leaves behind. The mock client builds its prediction without touching the
  record.
\<close>

type_synonym heap = "dict list"

definition alloc :: "dict \<Rightarrow> heap \<Rightarrow> nat \<times> heap" where
  "alloc d h = (length h, h @ [d])"

definition KumoClient_predict_st :: "rat \<Rightarrow> nat \<Rightarrow> nat \<Rightarrow> heap \<Rightarrow> (error + nat) \<times> heap" where
  "KumoClient_predict_st u i user_features h =
     (case bind (py_round (FloatV u) 2) (\<lambda>score.
           bind (random_choice actions i) (\<lambda>action.
           Inr [''engagement_score'' \<mapsto> score, ''recommended_action'' \<mapsto> StrV action])) of
        Inl e \<Rightarrow> (Inl e, h)
      | Inr d \<Rightarrow> (case alloc d h of (p, h') \<Rightarrow> (Inr p, h')))"

text \<open>
  \<open>recommend\<close> with the same steps as above, reading the prediction and the record
  through their references and allocating the dictionary it returns.
\<close>

definition recommend_st ::
  "(nat \<Rightarrow> heap \<Rightarrow> (error + nat) \<times> heap) \<Rightarrow> nat \<Rightarrow> heap \<Rightarrow> (error + nat) \<times> heap" where
  "recommend_st kumo user_data h =
     (case kumo user_data h of
        (Inl e, h1) \<Rightarrow> (Inl e, h1)
      | (Inr prediction, h1) \<Rightarrow>
          (case bind (subscript (h1 ! prediction) ''engagement_score'') (\<lambda>score.
                bind (py_gt_float score threshold) (\<lambda>exceeds.
                bind (if exceeds then subscript (h1 ! prediction) ''recommended_action''
                      else Inr (StrV ''send_message'')) (\<lambda>action.
                bind (subscript (h1 ! user_data) ''user_id'') (\<lambda>uid.
                bind (subscript (h1 ! prediction) ''engagement_score'') (\<lambda>score'.
                Inr [''user_id'' \<mapsto> uid, ''action'' \<mapsto> action, ''score'' \<mapsto> score']))))) of
             Inl e \<Rightarrow> (Inl e, h1)
           | Inr d \<Rightarrow> (case alloc d h1 of (r, h2) \<Rightarrow> (Inr r, h2))))"

text \<open>What a call returned, with a returned reference replaced by the object it points to.\<close>

definition returned :: "(error + nat) \<times> heap \<Rightarrow> error + dict" where
  "returned res = (case res of (Inl e, h) \<Rightarrow> Inl e | (Inr r, h) \<Rightarrow> Inr (h ! r))"

section \<open>Properties of validate_user_data\<close>

lemma validate_loop_dom: "validate_loop fs d \<longleftrightarrow> set fs \<subseteq> dom d"
  by (induction fs) auto

text \<open>
  Claim C3. \<open>validate_user_data\<close> returns true if and only if each of the six keys
  \<open>user_id\<close>, \<open>age\<close>, \<open>gender\<close>, \<open>last_active\<close>, \<open>interactions\<close>, \<open>purchases\<close> is a key
  of the mapping, whatever the values stored under them.
\<close>

theorem validate_user_data_iff:
  "validate_user_data d \<longleftrightarrow>
     d ''user_id'' \<noteq> None \<and> d ''age'' \<noteq> None \<and> d ''gender'' \<noteq> None \<and>
     d ''last_active'' \<noteq> None \<and> d ''interactions'' \<noteq> None \<and> d ''purchases'' \<noteq> None"
  by (simp add: validate_user_data_def required_fields_def)

theorem validate_user_data_iff_witness:
  "validate_user_data
     [''user_id'' \<mapsto> IntV 1, ''age'' \<mapsto> IntV 25, ''gender'' \<mapsto> StrV ''M'',
      ''last_active'' \<mapsto> StrV ''2025-08-10'', ''interactions'' \<mapsto> StrV ''many'',
      ''purchases'' \<mapsto> FloatV 2]
   \<and> \<not> validate_user_data
     [''user_id'' \<mapsto> IntV 1, ''age'' \<mapsto> IntV 25, ''gender'' \<mapsto> StrV ''M'',
      ''last_active'' \<mapsto> StrV ''2025-08-10'', ''interactions'' \<mapsto> IntV 15]"
  using validate_user_data_iff
    [of "[''user_id'' \<mapsto> IntV 1, ''age'' \<mapsto> IntV 25, ''gender'' \<mapsto> StrV ''M'',
      ''last_active'' \<mapsto> StrV ''2025-08-10'', ''interactions'' \<mapsto> StrV ''many'',
      ''purchases'' \<mapsto> FloatV 2]"]
    validate_user_data_iff
    [of "[''user_id'' \<mapsto> IntV 1, ''age'' \<mapsto> IntV 25, ''gender'' \<mapsto> StrV ''M'',
      ''last_active'' \<mapsto> StrV ''2025-08-10'', ''interactions'' \<mapsto> IntV 15]"]
  by simp

section \<open>Facts about binary64 values\<close>

lemma floor_rat_numeral_div:
  "\<lfloor>(numeral a :: rat) / numeral b\<rfloor> = numeral a div numeral b"
  using floor_divide_of_int_eq [of "numeral a" "numeral b", where ?'a = rat] by simp

lemma floor_rat_neg_numeral_div:
  "\<lfloor>- ((numeral a :: rat) / numeral b)\<rfloor> = - numeral a div numeral b"
  using floor_divide_of_int_eq [of "- numeral a" "numeral b", where ?'a = rat] by simp

text \<open>Rules that evaluate the rounding functions on numerals.\<close>

lemmas float_eval =
  to_double_def floor_log2_def round_half_even_def floor_rat_numeral_div
  floor_rat_neg_numeral_div ceiling_def compute_floorlog power_int_minus Let_def

lemma threshold_literal: "to_double (7 / 10) = Some threshold"
  by (simp add: float_eval threshold_def)

lemma is_doubleI:
  "- 1074 \<le> e \<Longrightarrow> e \<le> 971 \<Longrightarrow> \<bar>m\<bar> \<le> 2 ^ 53 - 1 \<Longrightarrow> is_double (of_int m * 2 powi e)"
  unfolding is_double_def by (intro bexI[of _ e] bexI[of _ m]) auto

lemma is_double_threshold: "is_double threshold"
proof -
  have "is_double (of_int 3152519739159347 * 2 powi (- 52))"
    by (rule is_doubleI) simp_all
  then show ?thesis by (simp add: threshold_def power_int_minus)
qed

lemma threshold_lt: "threshold < 7 / 10"
  by (simp add: threshold_def)

lemma double_scaled_int:
  assumes "is_double q" "1 / 2 \<le> q"
  shows "\<exists>M::int. q = of_int M / 2 ^ 53"
proof -
  from assms(1) obtain e m where e: "- 1074 \<le> e" "e \<le> 971"
    and m: "- (2 ^ 53 - 1) \<le> m" "m \<le> 2 ^ 53 - 1" and q: "q = of_int m * 2 powi e"
    unfolding is_double_def by auto
  have "- 53 \<le> e"
  proof (rule ccontr)
    assume "\<not> - 53 \<le> e"
    then have "e \<le> - 54" by simp
    then have "(2::rat) powi e \<le> 2 powi (- 54)"
      by (intro power_int_increasing) simp_all
    moreover have "(0::rat) < 2 powi e" by (simp add: zero_less_power_int)
    moreover have "(of_int m :: rat) \<le> 2 ^ 53 - 1"
    proof -
      have "(of_int m :: rat) \<le> of_int (2 ^ 53 - 1)" using m by (simp only: of_int_le_iff)
      then show ?thesis by simp
    qed
    ultimately have "of_int m * (2::rat) powi e \<le> (2 ^ 53 - 1) * 2 powi (- 54)"
      by (intro mult_mono) simp_all
    also have "\<dots> < 1 / 2" by (simp add: power_int_minus)
    finally have "q < 1 / 2" unfolding q .
    with assms(2) show False by linarith
  qed
  define k where "k = nat (e + 53)"
  with \<open>- 53 \<le> e\<close> have k: "e = int k - 53" by simp
  have "(2::rat) powi e = 2 ^ k / 2 ^ 53"
    unfolding k by (simp add: power_int_diff)
  then have "q = of_int (m * 2 ^ k) / 2 ^ 53"
    using q by simp
  then show ?thesis by blast
qed

lemma double_gt_threshold:
  assumes "is_double q"
  shows "threshold < q \<longleftrightarrow> 7 / 10 < q"
proof
  assume "7 / 10 < q"
  with threshold_lt show "threshold < q" by simp
next
  assume gt: "threshold < q"
  then have "1 / 2 \<le> q" by (simp add: threshold_def)
  with assms obtain M :: int where M: "q = of_int M / 2 ^ 53"
    using double_scaled_int by blast
  have "threshold = of_int 6305039478318694 / 2 ^ 53"
    by (simp add: threshold_def)
  with gt M have "(of_int 6305039478318694 :: rat) < of_int M"
    by (simp add: divide_less_cancel)
  then have "6305039478318694 < M" by (simp only: of_int_less_iff)
  then have "6305039478318695 \<le> M" by simp
  then have "(of_int 6305039478318695 :: rat) \<le> of_int M" by (simp only: of_int_le_iff)
  then have "(of_int 6305039478318695 :: rat) / 2 ^ 53 \<le> q"
    unfolding M by (simp add: divide_le_cancel)
  moreover have "(7::rat) / 10 < of_int 6305039478318695 / 2 ^ 53" by simp
  ultimately show "7 / 10 < q" by simp
qed


section \<open>Correct rounding: exponent, range and fixed points\<close>

lemma floorlog_pos: "0 < n \<Longrightarrow> 0 < floorlog 2 n"
  by (simp add: floorlog_def)

lemma floor_log2_bounds:
  assumes "0 < q"
  shows "2 powi (floor_log2 q) \<le> q" and "q < 2 powi (floor_log2 q + 1)"
proof -
  have "2 powi (floor_log2 q) \<le> q \<and> q < 2 powi (floor_log2 q + 1)"
  proof (cases "1 \<le> q")
    case True
    define n where "n = nat \<lfloor>q\<rfloor>"
    define a where "a = floorlog 2 n"
    have n_pos: "0 < n" using True by (simp add: n_def)
    then have a_pos: "0 < a" by (simp add: a_def floorlog_pos)
    have b: "2 ^ (a - 1) \<le> n" "n < 2 ^ a"
      using floorlog_bounds [of n 2] n_pos by (simp_all add: a_def)
    have E: "floor_log2 q = int (a - 1)"
      using True a_pos by (simp add: floor_log2_def n_def a_def)
    have "0 \<le> \<lfloor>q\<rfloor>" using True by simp
    then have "(of_nat n :: rat) = of_int \<lfloor>q\<rfloor>" by (simp add: n_def)
    then have nq: "(of_nat n :: rat) \<le> q" "q < of_nat n + 1"
      using floor_correct [of q] by simp_all
    have "(2::rat) ^ (a - 1) \<le> of_nat n"
      using b(1) by (metis of_nat_le_iff of_nat_numeral of_nat_power)
    then have lo: "(2::rat) ^ (a - 1) \<le> q" using nq(1) by linarith
    have "n + 1 \<le> 2 ^ a" using b(2) by simp
    then have "(of_nat (n + 1) :: rat) \<le> of_nat (2 ^ a)" by (simp only: of_nat_le_iff)
    then have "(of_nat n :: rat) + 1 \<le> 2 ^ a" by simp
    then have hi: "q < 2 ^ a" using nq(2) by linarith
    have "int (a - 1) + 1 = int a" using a_pos by simp
    then have "(2::rat) powi (floor_log2 q + 1) = 2 ^ a"
      unfolding E by (simp only: power_int_of_nat)
    moreover have "(2::rat) powi (floor_log2 q) = 2 ^ (a - 1)"
      unfolding E by (simp only: power_int_of_nat)
    ultimately show ?thesis using lo hi by simp
  next
    case False
    then have q1: "q < 1" by simp
    define N where "N = \<lceil>1 / q\<rceil>"
    define n where "n = nat (N - 1)"
    define j where "j = floorlog 2 n"
    have t: "1 < 1 / q" using assms q1 by simp
    have N2: "2 \<le> N" using t by (simp add: N_def le_ceiling_iff)
    then have n_pos: "0 < n" by (simp add: n_def)
    then have j_pos: "0 < j" by (simp add: j_def floorlog_pos)
    have b: "2 ^ (j - 1) \<le> n" "n < 2 ^ j"
      using floorlog_bounds [of n 2] n_pos by (simp_all add: j_def)
    have E: "floor_log2 q = - int j"
      using False by (simp add: floor_log2_def N_def n_def j_def)
    have nN: "int n = N - 1" using N2 by (simp add: n_def)
    have up: "1 / q \<le> of_int N" by (simp add: N_def)
    have low: "of_int N - 1 < 1 / q" unfolding N_def by linarith
    have "n + 1 \<le> 2 ^ j" using b(2) by simp
    then have "int (n + 1) \<le> int (2 ^ j)" by (simp only: of_nat_le_iff)
    then have "N \<le> 2 ^ j" using nN by simp
    then have "(of_int N :: rat) \<le> of_int (2 ^ j)" by (simp only: of_int_le_iff)
    then have "(of_int N :: rat) \<le> 2 ^ j" by simp
    then have "1 / q \<le> 2 ^ j" using up by linarith
    then have lo: "1 / 2 ^ j \<le> q"
      using assms by (simp add: field_simps)
    have "int (2 ^ (j - 1)) \<le> int n" using b(1) by (simp only: of_nat_le_iff)
    then have "(2::int) ^ (j - 1) \<le> N - 1" using nN by simp
    then have "(of_int (2 ^ (j - 1)) :: rat) \<le> of_int (N - 1)" by (simp only: of_int_le_iff)
    then have "(2::rat) ^ (j - 1) \<le> of_int N - 1" by simp
    then have "(2::rat) ^ (j - 1) < 1 / q" using low by linarith
    then have hi: "q < 1 / 2 ^ (j - 1)"
      using assms by (simp add: field_simps)
    have "(2::rat) powi (floor_log2 q) = 1 / 2 ^ j"
      unfolding E by (simp add: power_int_minus field_simps)
    moreover have "- int j + 1 = - int (j - 1)" using j_pos by simp
    then have "(2::rat) powi (floor_log2 q + 1) = 2 powi (- int (j - 1))"
      unfolding E by (simp only:)
    then have "(2::rat) powi (floor_log2 q + 1) = 1 / 2 ^ (j - 1)"
      by (simp only: power_int_minus power_int_of_nat inverse_eq_divide)
    ultimately show ?thesis using lo hi by simp
  qed
  then show "2 powi (floor_log2 q) \<le> q" and "q < 2 powi (floor_log2 q + 1)" by simp_all
qed

lemma round_half_even_floor:
  "round_half_even x = \<lfloor>x\<rfloor> \<or> round_half_even x = \<lfloor>x\<rfloor> + 1 \<and> 1 / 2 \<le> x - of_int \<lfloor>x\<rfloor>"
  by (auto simp: round_half_even_def Let_def)

lemma round_half_even_close: "\<bar>x * 2 - of_int (round_half_even x) * 2\<bar> \<le> 1"
proof -
  have f: "of_int \<lfloor>x\<rfloor> \<le> x" "x < of_int \<lfloor>x\<rfloor> + 1"
    using floor_correct [of x] by simp_all
  from round_half_even_floor [of x] show ?thesis
  proof
    assume "round_half_even x = \<lfloor>x\<rfloor>"
    moreover from this have "x - of_int \<lfloor>x\<rfloor> \<le> 1 / 2"
      by (simp add: round_half_even_def Let_def split: if_splits)
    ultimately show ?thesis using f by (simp add: abs_le_iff)
  next
    assume "round_half_even x = \<lfloor>x\<rfloor> + 1 \<and> 1 / 2 \<le> x - of_int \<lfloor>x\<rfloor>"
    then show ?thesis using f by (simp add: abs_le_iff)
  qed
qed

lemma round_half_even_tie:
  assumes "\<bar>x - of_int (round_half_even x)\<bar> = 1 / 2"
  shows "even (round_half_even x)"
proof -
  have f: "of_int \<lfloor>x\<rfloor> \<le> x" "x < of_int \<lfloor>x\<rfloor> + 1"
    using floor_correct [of x] by simp_all
  show ?thesis
  proof (cases "x - of_int \<lfloor>x\<rfloor> < 1 / 2")
    case True
    then have "round_half_even x = \<lfloor>x\<rfloor>" by (simp add: round_half_even_def Let_def)
    with assms True f show ?thesis by simp
  next
    case False
    show ?thesis
    proof (cases "1 / 2 < x - of_int \<lfloor>x\<rfloor>")
      case True
      then have "round_half_even x = \<lfloor>x\<rfloor> + 1" using False by (simp add: round_half_even_def Let_def)
      with assms True f show ?thesis by (simp add: abs_if split: if_splits)
    next
      case F2: False
      then show ?thesis using False by (simp add: round_half_even_def Let_def)
    qed
  qed
qed

lemma round_half_even_of_int [simp]: "round_half_even (of_int n) = n"
  by (simp add: round_half_even_def)

lemma round_half_even_ge: "of_int a \<le> x \<Longrightarrow> a \<le> round_half_even x"
proof -
  assume "of_int a \<le> x"
  then have "a \<le> \<lfloor>x\<rfloor>" by (simp add: le_floor_iff)
  then show ?thesis using round_half_even_floor [of x] by auto
qed

lemma round_half_even_le: "x \<le> of_int b \<Longrightarrow> round_half_even x \<le> b"
proof -
  assume xb: "x \<le> of_int b"
  then have fb: "\<lfloor>x\<rfloor> \<le> b" by (simp add: floor_le_iff)
  show ?thesis
  proof (cases "round_half_even x = \<lfloor>x\<rfloor>")
    case True
    with fb show ?thesis by simp
  next
    case False
    then have r: "round_half_even x = \<lfloor>x\<rfloor> + 1" "1 / 2 \<le> x - of_int \<lfloor>x\<rfloor>"
      using round_half_even_floor [of x] by auto
    then have "of_int \<lfloor>x\<rfloor> < x" by simp
    with xb have "(of_int \<lfloor>x\<rfloor> :: rat) < of_int b" by simp
    then have "\<lfloor>x\<rfloor> < b" by (simp only: of_int_less_iff)
    with r show ?thesis by simp
  qed
qed

lemma two_powi_pos: "(0::rat) < 2 powi e"
  by (simp add: zero_less_power_int)

lemma two_powi_mono: "a \<le> b \<Longrightarrow> (2::rat) powi a \<le> 2 powi b"
  by (rule power_int_increasing) simp_all

lemma two_powi_add: "(2::rat) powi (a + b) = 2 powi a * 2 powi b"
  by (rule power_int_add) simp

lemma two_powi_less_imp: "(2::rat) powi a < 2 powi b \<Longrightarrow> a < b"
  using two_powi_mono [of b a] by (cases "a < b") simp_all

lemma to_double_bound:
  assumes "q \<noteq> 0" and "floor_log2 \<bar>q\<bar> \<le> 1022"
  shows "\<exists>r. to_double q = Some r \<and> \<bar>r\<bar> \<le> 2 powi (max (floor_log2 \<bar>q\<bar>) (- 1022) + 1)
    \<and> (0 \<le> q \<longrightarrow> 0 \<le> r)"
proof -
  define E where "E = floor_log2 \<bar>q\<bar>"
  define e where "e = max E (- 1022) - 52"
  define x where "x = q / 2 powi e"
  define M where "M = round_half_even x"
  define r where "r = of_int M * (2::rat) powi e"
  have pe: "(0::rat) < 2 powi e" by (rule two_powi_pos)
  have "\<bar>q\<bar> < 2 powi (E + 1)"
    unfolding E_def using assms(1) by (intro floor_log2_bounds) simp
  also have "E + 1 \<le> 53 + e" by (simp add: e_def)
  then have "(2::rat) powi (E + 1) \<le> 2 powi (53 + e)" by (rule two_powi_mono)
  also have "\<dots> = 2 ^ 53 * 2 powi e" by (simp add: two_powi_add)
  finally have "\<bar>q\<bar> / 2 powi e < 2 ^ 53"
    using pe by (simp add: field_simps)
  then have ax: "\<bar>x\<bar> < 2 ^ 53" using pe by (simp add: x_def)
  have xb: "x \<le> of_int (2 ^ 53)" "of_int (- (2 ^ 53)) \<le> x"
    using ax by simp_all
  have "M \<le> 2 ^ 53"
    unfolding M_def using xb(1) by (rule round_half_even_le)
  moreover have "- (2 ^ 53) \<le> M"
    unfolding M_def using xb(2) by (rule round_half_even_ge)
  ultimately have "\<bar>M\<bar> \<le> 2 ^ 53" by simp
  then have "(of_int \<bar>M\<bar> :: rat) \<le> of_int (2 ^ 53)" by (simp only: of_int_le_iff)
  then have aM: "\<bar>of_int M :: rat\<bar> \<le> 2 ^ 53" by simp
  have "\<bar>r\<bar> = \<bar>of_int M\<bar> * 2 powi e"
    using pe by (simp add: r_def abs_mult)
  also have "\<dots> \<le> 2 ^ 53 * 2 powi e"
    using aM pe by (intro mult_right_mono) simp_all
  also have "\<dots> = 2 powi (53 + e)" by (simp add: two_powi_add)
  also have "53 + e = max E (- 1022) + 1" by (simp add: e_def)
  finally have rb: "\<bar>r\<bar> \<le> 2 powi (max E (- 1022) + 1)" .
  have "max E (- 1022) + 1 \<le> 1023" using assms(2) by (simp add: E_def)
  then have "(2::rat) powi (max E (- 1022) + 1) \<le> 2 powi 1023" by (rule two_powi_mono)
  also have "\<dots> < 2 ^ 1024" by simp
  finally have "\<bar>r\<bar> < 2 ^ 1024" using rb by simp
  then have td: "to_double q = Some r"
    using assms(1) by (simp add: to_double_def Let_def r_def M_def x_def e_def E_def)
  have "0 \<le> r" if "0 \<le> q"
  proof -
    from that pe have "of_int 0 \<le> x" by (simp add: x_def)
    then have "0 \<le> M" unfolding M_def by (rule round_half_even_ge)
    then show ?thesis using pe by (simp add: r_def)
  qed
  with td rb show ?thesis by (simp add: E_def)
qed

lemma floor_log2_less:
  assumes "0 < q" and "q < 2 powi b"
  shows "floor_log2 q < b"
proof -
  have "2 powi (floor_log2 q) \<le> q" using assms(1) by (rule floor_log2_bounds)
  with assms(2) have "(2::rat) powi (floor_log2 q) < 2 powi b" by simp
  then show ?thesis by (rule two_powi_less_imp)
qed

lemma to_double_of_double:
  assumes "is_double q"
  shows "to_double q = Some q"
proof (cases "q = 0")
  case True
  then show ?thesis by (simp add: to_double_def)
next
  case False
  from assms obtain e0 m where e0: "- 1074 \<le> e0" "e0 \<le> 971"
    and m: "- (2 ^ 53 - 1) \<le> m" "m \<le> 2 ^ 53 - 1" and q: "q = of_int m * 2 powi e0"
    unfolding is_double_def by auto
  define E where "E = floor_log2 \<bar>q\<bar>"
  define e where "e = max E (- 1022) - 52"
  have p0: "(0::rat) < 2 powi e0" by (rule two_powi_pos)
  have "\<bar>m\<bar> < 2 ^ 53" using m by simp
  then have "(of_int \<bar>m\<bar> :: rat) < of_int (2 ^ 53)" by (simp only: of_int_less_iff)
  then have am: "\<bar>of_int m :: rat\<bar> < 2 ^ 53" by simp
  have "\<bar>q\<bar> = \<bar>of_int m\<bar> * 2 powi e0" using p0 by (simp add: q abs_mult)
  also have "\<dots> < 2 ^ 53 * 2 powi e0" using am p0 by (intro mult_strict_right_mono)
  also have "\<dots> = 2 powi (53 + e0)" by (simp add: two_powi_add)
  finally have qlt: "\<bar>q\<bar> < 2 powi (53 + e0)" .
  then have "E < 53 + e0" unfolding E_def using False by (intro floor_log2_less) simp_all
  then have le: "e \<le> e0" using e0(1) by (simp add: e_def)
  define k where "k = nat (e0 - e)"
  have "e0 = int k + e" using le by (simp add: k_def)
  then have "(2::rat) powi e0 = 2 ^ k * 2 powi e"
    by (simp add: two_powi_add)
  then have qe: "q / 2 powi e = of_int (m * 2 ^ k)"
    using two_powi_pos [of e] by (simp add: q)
  have "round_half_even (q / 2 powi e) = m * 2 ^ k"
    unfolding qe by (rule round_half_even_of_int)
  then have "of_int (round_half_even (q / 2 powi e)) * 2 powi e = q / 2 powi e * 2 powi e"
    unfolding qe by (simp only:)
  also have "\<dots> = q" using two_powi_pos [of e] by simp
  finally have "of_int (round_half_even (q / 2 powi e)) * 2 powi e = q" .
  moreover have "\<bar>q\<bar> < 2 ^ 1024"
  proof -
    have "53 + e0 \<le> 1024" using e0(2) by simp
    then have "(2::rat) powi (53 + e0) \<le> 2 powi 1024" by (rule two_powi_mono)
    with qlt show ?thesis by simp
  qed
  ultimately show ?thesis
    using False by (simp add: to_double_def Let_def e_def E_def)
qed

lemma to_double_unit:
  assumes "0 \<le> x" and "x \<le> 1"
  shows "\<exists>r. to_double x = Some r \<and> 0 \<le> r \<and> r \<le> 1"
proof -
  consider "x = 0" | "x = 1" | "0 < x" "x < 1" using assms by fastforce
  then show ?thesis
  proof cases
    case 1
    then show ?thesis by (simp add: to_double_def)
  next
    case 2
    then show ?thesis by (simp add: float_eval)
  next
    case 3
    have "floor_log2 \<bar>x\<bar> < 0"
      using 3 by (intro floor_log2_less) simp_all
    moreover from this have "floor_log2 \<bar>x\<bar> \<le> 1022" by simp
    ultimately obtain r where r: "to_double x = Some r"
      "\<bar>r\<bar> \<le> 2 powi (max (floor_log2 \<bar>x\<bar>) (- 1022) + 1)" "0 \<le> r"
      using to_double_bound [of x] 3 by auto
    have "max (floor_log2 \<bar>x\<bar>) (- 1022) + 1 \<le> 0"
      using \<open>floor_log2 \<bar>x\<bar> < 0\<close> by simp
    then have "(2::rat) powi (max (floor_log2 \<bar>x\<bar>) (- 1022) + 1) \<le> 2 powi 0"
      by (rule two_powi_mono)
    with r show ?thesis by simp
  qed
qed

lemma round_is_total_on_doubles:
  assumes "is_double s"
  shows "\<exists>r. to_double (of_int (round_half_even (s * 100)) / 100) = Some r"
proof -
  from assms obtain e0 m where e0: "- 1074 \<le> e0" "e0 \<le> 971"
    and m: "- (2 ^ 53 - 1) \<le> m" "m \<le> 2 ^ 53 - 1" and s: "s = of_int m * 2 powi e0"
    unfolding is_double_def by auto
  define x :: rat where "x = of_int (round_half_even (s * 100)) / 100"
  show ?thesis
  proof (cases "0 \<le> e0")
    case True
    then have "(2::rat) powi e0 = 2 ^ nat e0" by (simp add: power_int_def)
    then have "s * 100 = of_int (m * 2 ^ nat e0 * 100)" by (simp add: s)
    then have "round_half_even (s * 100) = m * 2 ^ nat e0 * 100"
      by (simp only: round_half_even_of_int)
    then have "of_int (round_half_even (s * 100)) / 100 = s"
      using \<open>(2::rat) powi e0 = 2 ^ nat e0\<close> by (simp add: s)
    then show ?thesis using to_double_of_double [OF assms] by simp
  next
    case False
    then have "e0 \<le> 0" by simp
    then have "(2::rat) powi e0 \<le> 2 powi 0" by (rule two_powi_mono)
    then have p1: "(2::rat) powi e0 \<le> 1" by simp
    have "\<bar>m\<bar> \<le> 2 ^ 53" using m by simp
    then have "(of_int \<bar>m\<bar> :: rat) \<le> of_int (2 ^ 53)" by (simp only: of_int_le_iff)
    then have am: "\<bar>of_int m :: rat\<bar> \<le> 2 ^ 53" by simp
    have "\<bar>s\<bar> = \<bar>of_int m\<bar> * 2 powi e0"
      using two_powi_pos [of e0] by (simp add: s abs_mult)
    also have "\<dots> \<le> 2 ^ 53 * 1"
      using am p1 two_powi_pos [of e0] by (intro mult_mono) simp_all
    finally have as: "\<bar>s\<bar> \<le> 2 ^ 53" by simp
    have "\<bar>s * 100 * 2 - of_int (round_half_even (s * 100)) * 2\<bar> \<le> 1"
      by (rule round_half_even_close)
    then have "\<bar>x\<bar> \<le> \<bar>s\<bar> + 1"
      by (simp add: x_def abs_le_iff field_simps) linarith
    with as have ax: "\<bar>x\<bar> < 2 powi 54" by simp
    show ?thesis
    proof (cases "x = 0")
      case True
      then show ?thesis by (simp add: x_def [symmetric] to_double_def)
    next
      case F: False
      then have "floor_log2 \<bar>x\<bar> < 54" using ax by (intro floor_log2_less) simp_all
      then have "floor_log2 \<bar>x\<bar> \<le> 1022" by simp
      with F show ?thesis using to_double_bound [of x] unfolding x_def by blast
    qed
  qed
qed

section \<open>Properties of recommend\<close>

text \<open>
  Claim C1. When the prediction source returns a prediction whose \<open>engagement_score\<close> is
  a float \<open>s\<close> and the record has a \<open>user_id\<close>, the action of the recommendation is the
  prediction's \<open>recommended_action\<close> exactly when \<open>s\<close> is strictly greater than 0.7
  (the decimal number: for a binary64 value this is the same as exceeding the float that
  the literal denotes), and \<open>send_message\<close> otherwise. A missing \<open>recommended_action\<close>
  only matters above the threshold, where the lookup raises and there is no action.
\<close>

theorem recommend_decision_rule:
  assumes "kumo ud = Inr p" and "p ''engagement_score'' = Some (FloatV s)"
    and "is_double s" and "ud ''user_id'' = Some uid"
  shows "entry (recommend kumo ud) ''action'' =
    (if 7 / 10 < s then p ''recommended_action'' else Some (StrV ''send_message''))"
proof -
  have "threshold < s \<longleftrightarrow> 7 / 10 < s"
    using assms(3) by (rule double_gt_threshold)
  then show ?thesis
    using assms(1,2,4) by (cases "p ''recommended_action''") (simp_all add: recommend_def subscript_def)
qed

text \<open>At a score equal to the float 0.7 itself the action is \<open>send_message\<close>.\<close>

theorem recommend_decision_rule_witness:
  "entry (recommend
       (\<lambda>features. Inr [''engagement_score'' \<mapsto> FloatV threshold,
                          ''recommended_action'' \<mapsto> StrV ''offer_discount''])
       [''user_id'' \<mapsto> IntV 1]) ''action'' = Some (StrV ''send_message'')
   \<and> entry (recommend
       (\<lambda>features. Inr [''engagement_score'' \<mapsto> FloatV (3 / 4),
                          ''recommended_action'' \<mapsto> StrV ''offer_discount''])
       [''user_id'' \<mapsto> IntV 1]) ''action'' = Some (StrV ''offer_discount'')"
proof -
  have d: "is_double (3 / 4)"
    using is_doubleI [of "- 2" 3] by (simp add: power_int_minus)
  have lt: "\<not> 7 / 10 < threshold"
    by (simp add: threshold_def)
  show ?thesis
    using recommend_decision_rule
      [of "\<lambda>features. Inr [''engagement_score'' \<mapsto> FloatV threshold,
                          ''recommended_action'' \<mapsto> StrV ''offer_discount'']"
        "[''user_id'' \<mapsto> IntV 1]" _ threshold "IntV 1", OF refl _ is_double_threshold]
      recommend_decision_rule
      [of "\<lambda>features. Inr [''engagement_score'' \<mapsto> FloatV (3 / 4),
                          ''recommended_action'' \<mapsto> StrV ''offer_discount'']"
        "[''user_id'' \<mapsto> IntV 1]" _ "3 / 4" "IntV 1", OF refl _ d]
      lt
    by simp
qed

text \<open>
  Claim C6. For a record with a \<open>user_id\<close> and a prediction with a numeric
  \<open>engagement_score\<close> and a \<open>recommended_action\<close>, the returned dictionary is exactly
  \<open>user_id\<close> from the record, \<open>action\<close> from the decision rule, and \<open>score\<close> the
  prediction's \<open>engagement_score\<close> as it is: the same value, not rounded.
\<close>

theorem recommend_output:
  assumes "kumo ud = Inr p" and "p ''engagement_score'' = Some v"
    and "py_gt_float v threshold = Inr exceeds"
    and "p ''recommended_action'' = Some a" and "ud ''user_id'' = Some uid"
  shows "recommend kumo ud =
    Inr [''user_id'' \<mapsto> uid,
         ''action'' \<mapsto> (if exceeds then a else StrV ''send_message''),
         ''score'' \<mapsto> v]"
  using assms by (simp add: recommend_def subscript_def)

theorem recommend_output_witness:
  "recommend
     (\<lambda>features. Inr [''engagement_score'' \<mapsto> FloatV (2 / 3),
                        ''recommended_action'' \<mapsto> StrV ''offer_discount''])
     [''user_id'' \<mapsto> IntV 7, ''age'' \<mapsto> IntV 25] =
   Inr [''user_id'' \<mapsto> IntV 7, ''action'' \<mapsto> StrV ''send_message'',
        ''score'' \<mapsto> FloatV (2 / 3)]"
  using recommend_output
    [of "\<lambda>features. Inr [''engagement_score'' \<mapsto> FloatV (2 / 3),
                        ''recommended_action'' \<mapsto> StrV ''offer_discount'']"
      "[''user_id'' \<mapsto> IntV 7, ''age'' \<mapsto> IntV 25]" _ "FloatV (2 / 3)" False
      "StrV ''offer_discount''" "IntV 7"]
  by (simp add: threshold_def)

text \<open>
  Claim C7, as stated, fails: a prediction without \<open>recommended_action\<close> whose score is
  not above the threshold produces a \<open>send_message\<close> recommendation and no error.
\<close>

theorem recommend_missing_action_counterexample:
  "[''engagement_score'' \<mapsto> FloatV (1 / 2)] ''recommended_action'' = None
   \<and> recommend (\<lambda>features. Inr [''engagement_score'' \<mapsto> FloatV (1 / 2)])
       [''user_id'' \<mapsto> IntV 1] =
     Inr [''user_id'' \<mapsto> IntV 1, ''action'' \<mapsto> StrV ''send_message'',
          ''score'' \<mapsto> FloatV (1 / 2)]"
  by (simp add: recommend_def subscript_def threshold_def)

text \<open>
  Claim C7, amended. With a prediction \<open>p\<close> returned by the source: a missing
  \<open>engagement_score\<close> raises \<open>KeyError\<close> for that key; a missing \<open>recommended_action\<close>
  raises \<open>KeyError\<close> for that key when the score is a float above 0.7; a missing
  \<open>user_id\<close> always makes the call raise, with \<open>KeyError\<close> for \<open>user_id\<close> when the
  lookups in the prediction succeed; and a missing \<open>recommended_action\<close> with a float
  score not above 0.7 raises nothing: the \<open>send_message\<close> recommendation is returned.
\<close>

theorem recommend_missing_fields:
  assumes "kumo ud = Inr p"
  shows "(p ''engagement_score'' = None \<longrightarrow>
            recommend kumo ud = Inl (KeyError ''engagement_score''))
    \<and> (p ''engagement_score'' = Some (FloatV s) \<and> is_double s \<and> 7 / 10 < s \<and>
         p ''recommended_action'' = None \<longrightarrow>
            recommend kumo ud = Inl (KeyError ''recommended_action''))
    \<and> (ud ''user_id'' = None \<longrightarrow> isl (recommend kumo ud))
    \<and> (ud ''user_id'' = None \<and> p ''engagement_score'' = Some (FloatV s) \<and>
         p ''recommended_action'' \<noteq> None \<longrightarrow>
            recommend kumo ud = Inl (KeyError ''user_id''))
    \<and> (p ''engagement_score'' = Some (FloatV s) \<and> is_double s \<and> \<not> 7 / 10 < s \<and>
         p ''recommended_action'' = None \<and> ud ''user_id'' = Some uid \<longrightarrow>
            recommend kumo ud =
              Inr [''user_id'' \<mapsto> uid, ''action'' \<mapsto> StrV ''send_message'',
                   ''score'' \<mapsto> FloatV s])"
proof (intro conjI impI)
  assume "p ''engagement_score'' = None"
  with assms show "recommend kumo ud = Inl (KeyError ''engagement_score'')"
    by (simp add: recommend_def subscript_def)
next
  assume a: "p ''engagement_score'' = Some (FloatV s) \<and> is_double s \<and> 7 / 10 < s \<and>
    p ''recommended_action'' = None"
  then have "threshold < s" using double_gt_threshold by blast
  with assms a show "recommend kumo ud = Inl (KeyError ''recommended_action'')"
    by (simp add: recommend_def subscript_def)
next
  assume u: "ud ''user_id'' = None"
  show "isl (recommend kumo ud)"
  proof (cases "p ''engagement_score''")
    case None
    with assms show ?thesis by (simp add: recommend_def subscript_def)
  next
    case (Some v)
    with assms u show ?thesis
      by (cases v; cases "p ''recommended_action''")
        (simp_all add: recommend_def subscript_def)
  qed
next
  assume "ud ''user_id'' = None \<and> p ''engagement_score'' = Some (FloatV s) \<and>
    p ''recommended_action'' \<noteq> None"
  with assms show "recommend kumo ud = Inl (KeyError ''user_id'')"
    by (auto simp add: recommend_def subscript_def)
next
  assume a: "p ''engagement_score'' = Some (FloatV s) \<and> is_double s \<and> \<not> 7 / 10 < s \<and>
    p ''recommended_action'' = None \<and> ud ''user_id'' = Some uid"
  then have "\<not> threshold < s" using double_gt_threshold by blast
  with assms a show "recommend kumo ud =
      Inr [''user_id'' \<mapsto> uid, ''action'' \<mapsto> StrV ''send_message'', ''score'' \<mapsto> FloatV s]"
    by (simp add: recommend_def subscript_def)
qed

theorem recommend_missing_fields_witness:
  "recommend (\<lambda>features. Inr [''recommended_action'' \<mapsto> StrV ''offer_discount''])
      [''user_id'' \<mapsto> IntV 1] = Inl (KeyError ''engagement_score'')
   \<and> recommend (\<lambda>features. Inr [''engagement_score'' \<mapsto> FloatV (3 / 4)])
      [''user_id'' \<mapsto> IntV 1] = Inl (KeyError ''recommended_action'')
   \<and> recommend (\<lambda>features. Inr [''engagement_score'' \<mapsto> FloatV (3 / 4),
                        ''recommended_action'' \<mapsto> StrV ''offer_discount''])
      [''age'' \<mapsto> IntV 25] = Inl (KeyError ''user_id'')"
proof -
  have d: "is_double (3 / 4)"
    using is_doubleI [of "- 2" 3] by (simp add: power_int_minus)
  show ?thesis
    using d
      recommend_missing_fields
      [of "\<lambda>features. Inr [''recommended_action'' \<mapsto> StrV ''offer_discount'']"
        "[''user_id'' \<mapsto> IntV 1]" _ 0 "IntV 1", OF refl]
      recommend_missing_fields
      [of "\<lambda>features. Inr [''engagement_score'' \<mapsto> FloatV (3 / 4)]"
        "[''user_id'' \<mapsto> IntV 1]" _ "3 / 4" "IntV 1", OF refl]
      recommend_missing_fields
      [of "\<lambda>features. Inr [''engagement_score'' \<mapsto> FloatV (3 / 4),
                        ''recommended_action'' \<mapsto> StrV ''offer_discount'']"
        "[''age'' \<mapsto> IntV 25]" _ "3 / 4" "IntV 1", OF refl]
    by simp
qed

section \<open>Properties of format_recommendation_output and of the mock client\<close>

text \<open>
  Claim C2. The call \<open>format_recommendation_output(1, "send_message", 0.666)\<close> rounds
  the score to the float 0.67, as the claim says, but stores it under
  \<open>engagement_score\<close>: the returned dictionary has no \<open>score\<close> entry. The
  recommendation that \<open>recommend\<close> builds, and that the endpoint returns, names the same
  entry \<open>score\<close>.
\<close>

theorem format_recommendation_output_at_0666:
  "to_double (666 / 1000) = Some (5998794703657501 / 9007199254740992)
   \<and> to_double (67 / 100) = Some (6034823500676465 / 9007199254740992)
   \<and> format_recommendation_output (IntV 1) (StrV ''send_message'')
       (FloatV (5998794703657501 / 9007199254740992)) =
     Inr [''user_id'' \<mapsto> IntV 1, ''action'' \<mapsto> StrV ''send_message'',
          ''engagement_score'' \<mapsto> FloatV (6034823500676465 / 9007199254740992)]
   \<and> entry (format_recommendation_output (IntV 1) (StrV ''send_message'')
       (FloatV (5998794703657501 / 9007199254740992))) ''score'' = None
   \<and> entry (recommend
       (\<lambda>features. Inr [''engagement_score'' \<mapsto> FloatV (5998794703657501 / 9007199254740992),
                          ''recommended_action'' \<mapsto> StrV ''offer_discount''])
       [''user_id'' \<mapsto> IntV 1]) ''score'' =
     Some (FloatV (5998794703657501 / 9007199254740992))"
  by (simp add: format_recommendation_output_def recommend_def subscript_def threshold_def
      float_eval)

text \<open>
  Apart from the name of the key, the function does what is specified of it. For every
  \<open>user_id\<close>, \<open>action\<close> and float \<open>score\<close> it returns the arguments unchanged and the
  float nearest to \<open>k / 100\<close>, where \<open>k\<close> is \<open>100 * score\<close> rounded to the nearest
  integer, a tie going to the even one; it never raises on a float.
\<close>

lemma format_recommendation_output_rounding:
  assumes "is_double s"
  shows "\<exists>k r. format_recommendation_output uid act (FloatV s) =
        Inr [''user_id'' \<mapsto> uid, ''action'' \<mapsto> act, ''engagement_score'' \<mapsto> FloatV r]
      \<and> to_double (of_int k / 100) = Some r
      \<and> \<bar>s * 100 - of_int k\<bar> \<le> 1 / 2
      \<and> (\<bar>s * 100 - of_int k\<bar> = 1 / 2 \<longrightarrow> even k)"
proof -
  define k where "k = round_half_even (s * 100)"
  from round_is_total_on_doubles [OF assms]
  obtain r where r: "to_double (of_int k / 100) = Some r" unfolding k_def by blast
  then have f: "format_recommendation_output uid act (FloatV s) =
      Inr [''user_id'' \<mapsto> uid, ''action'' \<mapsto> act, ''engagement_score'' \<mapsto> FloatV r]"
    by (simp add: format_recommendation_output_def k_def)
  have c: "\<bar>s * 100 - of_int k\<bar> \<le> 1 / 2"
    using round_half_even_close [of "s * 100"] unfolding k_def by linarith
  have t: "\<bar>s * 100 - of_int k\<bar> = 1 / 2 \<longrightarrow> even k"
    unfolding k_def by (rule impI) (rule round_half_even_tie)
  from f r c t show ?thesis
    by (intro exI [of _ k] exI [of _ r] conjI) assumption+
qed

text \<open>
  Claim C10. For every draw \<open>u\<close> in \<open>[0, 1]\<close> and every index below 3, whatever the
  features, \<open>predict\<close> returns a dictionary with exactly the keys \<open>engagement_score\<close>
  and \<open>recommended_action\<close>; the score is a float in \<open>[0, 1]\<close>, the one nearest to
  \<open>k / 100\<close> for an integer \<open>0 \<le> k \<le> 100\<close>, and the action is one of the three
  strings.
\<close>

theorem KumoClient_predict_shape:
  assumes "0 \<le> u" and "u \<le> 1" and "i < 3"
  shows "\<exists>d k r a. KumoClient_predict u i features = Inr d
      \<and> d = [''engagement_score'' \<mapsto> FloatV r, ''recommended_action'' \<mapsto> StrV a]
      \<and> dom d = {''engagement_score'', ''recommended_action''}
      \<and> 0 \<le> r \<and> r \<le> 1
      \<and> 0 \<le> k \<and> k \<le> 100 \<and> to_double (of_int k / 100) = Some r
      \<and> (a = ''offer_discount'' \<or> a = ''recommend_product'' \<or> a = ''send_message'')"
proof -
  define k where "k = round_half_even (u * 100)"
  have k0: "0 \<le> k" unfolding k_def using assms(1) by (intro round_half_even_ge) simp
  have k1: "k \<le> 100" unfolding k_def using assms(2) by (intro round_half_even_le) simp
  have "(of_int 0 :: rat) \<le> of_int k" "(of_int k :: rat) \<le> of_int 100"
    using k0 k1 by (simp_all only: of_int_le_iff)
  then have "(0::rat) \<le> of_int k / 100" "(of_int k :: rat) / 100 \<le> 1" by simp_all
  then obtain r where r: "to_double (of_int k / 100) = Some r" "0 \<le> r" "r \<le> 1"
    using to_double_unit by blast
  define a where "a = actions ! i"
  have a: "a = ''offer_discount'' \<or> a = ''recommend_product'' \<or> a = ''send_message''"
    using assms(3) unfolding a_def actions_def
    by (cases i rule: nat.exhaust [case_names z s]; simp add: nth_Cons split: nat.splits)
  define d where "d = [''engagement_score'' \<mapsto> FloatV r, ''recommended_action'' \<mapsto> StrV a]"
  have p: "KumoClient_predict u i features = Inr d"
    using r(1) assms(3)
    by (simp add: KumoClient_predict_def random_choice_def actions_def k_def a_def d_def)
  have dm: "dom d = {''engagement_score'', ''recommended_action''}"
    unfolding d_def by auto
  from p d_def dm r(2,3) k0 k1 r(1) a show ?thesis
    by (intro exI [of _ d] exI [of _ k] exI [of _ r] exI [of _ a] conjI) assumption+
qed

theorem KumoClient_predict_shape_witness:
  "KumoClient_predict (1 / 2) 1 Map.empty =
     Inr [''engagement_score'' \<mapsto> FloatV (1 / 2),
          ''recommended_action'' \<mapsto> StrV ''recommend_product'']
   \<and> (\<exists>d k r a. KumoClient_predict (1 / 2) 1 Map.empty = Inr d
      \<and> d = [''engagement_score'' \<mapsto> FloatV r, ''recommended_action'' \<mapsto> StrV a]
      \<and> dom d = {''engagement_score'', ''recommended_action''}
      \<and> 0 \<le> r \<and> r \<le> 1
      \<and> 0 \<le> k \<and> k \<le> 100 \<and> to_double (of_int k / 100) = Some r
      \<and> (a = ''offer_discount'' \<or> a = ''recommend_product'' \<or> a = ''send_message''))"
proof
  show "KumoClient_predict (1 / 2) 1 Map.empty =
     Inr [''engagement_score'' \<mapsto> FloatV (1 / 2),
          ''recommended_action'' \<mapsto> StrV ''recommend_product'']"
    by (simp add: KumoClient_predict_def random_choice_def actions_def float_eval)
  show "\<exists>d k r a. KumoClient_predict (1 / 2) 1 Map.empty = Inr d
      \<and> d = [''engagement_score'' \<mapsto> FloatV r, ''recommended_action'' \<mapsto> StrV a]
      \<and> dom d = {''engagement_score'', ''recommended_action''}
      \<and> 0 \<le> r \<and> r \<le> 1
      \<and> 0 \<le> k \<and> k \<le> 100 \<and> to_double (of_int k / 100) = Some r
      \<and> (a = ''offer_discount'' \<or> a = ''recommend_product'' \<or> a = ''send_message'')"
    by (rule KumoClient_predict_shape) simp_all
qed

section \<open>The regular expression of the date format\<close>

lemmas date_eval = parse_date_def strptime_def format_regex_def re_m_def re_d_def digit_def
  one_of_def py_int_def decimal_value_def dval_def ascii_def some_decimals_def new_date_def
  days_in_month_def DAYS_IN_MONTH_def is_leap_def days_since_last_active_def toordinal_def
  days_before_year_def days_before_month_def DAYS_BEFORE_MONTH_def

lemma dec_ascii:
  assumes "decimal_table dec"
  shows "dec 48 = Some 0" "dec 49 = Some 1" "dec 50 = Some 2" "dec 51 = Some 3"
    "dec 52 = Some 4" "dec 53 = Some 5" "dec 54 = Some 6" "dec 55 = Some 7"
    "dec 56 = Some 8" "dec 57 = Some 9" "dec 32 = None"
  using assms by (simp_all add: decimal_table_def ascii_def)

lemma digit_not_blank: "decimal_table dec \<Longrightarrow> digit dec c \<Longrightarrow> c \<noteq> 32"
  by (auto simp: digit_def dec_ascii)

lemma py_int_digits:
  assumes "decimal_table dec" and "t \<noteq> []" and "list_all (digit dec) t"
  shows "py_int dec t = Inr (decimal_value dec t)"
proof -
  from assms(2) obtain a u where t: "t = a # u" by (cases t) auto
  with assms(3) have "digit dec a" by simp
  with assms(1) have "a \<noteq> 32" by (rule digit_not_blank)
  then have "dropWhile (\<lambda>c. c = 32) t = t" by (simp add: t)
  with assms(2,3) show ?thesis by (simp add: py_int_def)
qed

lemma py_int_blank: "py_int dec (32 # t) = py_int dec t"
  by (simp add: py_int_def)

lemma re_two_iff:
  "(t, r) \<in> set (re_two p q s) \<longleftrightarrow> (\<exists>a b. s = a # b # r \<and> t = [a, b] \<and> p a \<and> q b)"
  by (cases "(p, q, s)" rule: re_two.cases) auto

lemma re_one_iff:
  "(t, r) \<in> set (re_one p s) \<longleftrightarrow> (\<exists>a. s = a # r \<and> t = [a] \<and> p a)"
  by (cases "(p, s)" rule: re_one.cases) auto

lemma re_lit_iff: "r \<in> set (re_lit c s) \<longleftrightarrow> s = c # r"
  by (cases "(c, s)" rule: re_lit.cases) auto

lemma re_Y_sound:
  assumes "(Y, r) \<in> set (re_Y dec s)"
  shows "s = Y @ r \<and> length Y = 4 \<and> list_all (digit dec) Y"
  using assms by (cases "(dec, s)" rule: re_Y.cases) (auto split: if_splits)

lemma list4: "length Y = 4 \<Longrightarrow> \<exists>a b c d. Y = [a, b, c, d]"
  by (auto simp: eval_nat_numeral length_Suc_conv)

lemma re_Y_complete:
  assumes "length Y = 4" and "list_all (digit dec) Y"
  shows "re_Y dec (Y @ r) = [(Y, r)]"
proof -
  from list4 [OF assms(1)] obtain a b c d where "Y = [a, b, c, d]" by blast
  with assms(2) show ?thesis by simp
qed

lemmas text_eval = py_int_def decimal_value_def dval_def digit_def month_texts_def
  ascii_value_def

lemma re_m_sound:
  assumes "decimal_table dec" and "(M, r) \<in> set (re_m s)"
  shows "s = M @ r \<and> py_int dec M = Inr (ascii_value M) \<and> 1 \<le> ascii_value M
    \<and> ascii_value M \<le> 12 \<and> M \<in> set (month_texts (ascii_value M))"
proof -
  note d = dec_ascii [OF assms(1)]
  let ?P = "\<lambda>M. py_int dec M = Inr (ascii_value M) \<and> 1 \<le> ascii_value M
    \<and> ascii_value M \<le> 12 \<and> M \<in> set (month_texts (ascii_value M))"
  have a1: "?P [a, b]" if "one_of ''1'' a" "one_of ''012'' b" for a b
    using that unfolding one_of_def ascii_def by (simp; elim disjE; simp add: text_eval d)
  have a2: "?P [a, b]" if "one_of ''0'' a" "one_of ''123456789'' b" for a b
    using that unfolding one_of_def ascii_def by (simp; elim disjE; simp add: text_eval d)
  have a3: "?P [a]" if "one_of ''123456789'' a" for a
    using that unfolding one_of_def ascii_def by (simp; elim disjE; simp add: text_eval d)
  from assms(2) show ?thesis
    unfolding re_m_def set_append Un_iff re_two_iff re_one_iff
    using a1 a2 a3 by (elim disjE exE conjE) simp_all
qed

lemma month_cases:
  "1 \<le> m \<Longrightarrow> m \<le> 12 \<Longrightarrow> m \<in> set [1, 2, 3, 4, 5, 6, 7, 8, 9, 10, 11, 12 :: int]"
  by simp arith

lemma re_m_complete:
  assumes "decimal_table dec" and "1 \<le> m" and "m \<le> 12" and "M \<in> set (month_texts m)"
  shows "concat (map (\<lambda>(m', r3). concat (map (\<lambda>r4. f m' r4) (re_lit 45 r3)))
           (re_m (M @ 45 # r))) = f M r
         \<and> py_int dec M = Inr m"
  using month_cases [OF assms(2,3), simplified] assms(4) dec_ascii [OF assms(1)]
  by (elim disjE) (auto simp: text_eval re_m_def one_of_def ascii_def)

lemma py_int_two:
  assumes "decimal_table dec" and "digit dec a" and "digit dec b"
  shows "py_int dec [a, b] = Inr (10 * dval dec a + dval dec b)"
  using py_int_digits [OF assms(1), of "[a, b]"] assms(2,3)
  by (simp add: decimal_value_def)

lemma re_d_sound:
  assumes "decimal_table dec" and "(D, r) \<in> set (re_d dec s)"
  shows "s = D @ r \<and> (\<exists>d. py_int dec D = Inr d \<and> is_day_text dec d D)"
proof -
  note d = dec_ascii [OF assms(1)]
  let ?P = "\<lambda>D. \<exists>d. py_int dec D = Inr d \<and> is_day_text dec d D"
  have a1: "?P [a, b]" if "one_of ''3'' a" "one_of ''01'' b" for a b
    using that unfolding one_of_def ascii_def
    by (simp; elim disjE; simp add: text_eval d is_day_text_def)
  have a2: "?P [a, b]" if "one_of ''12'' a" "digit dec b" for a b
  proof -
    from that(1) have a: "a = 49 \<or> a = 50" by (simp add: one_of_def ascii_def)
    then have "digit dec a" "dval dec a = int a - 48" by (auto simp: digit_def dval_def d)
    with py_int_two [OF assms(1) _ that(2), of a]
    have "py_int dec [a, b] = Inr (10 * (int a - 48) + dval dec b)" by simp
    moreover have "is_day_text dec (10 * (int a - 48) + dval dec b) [a, b]"
      using a that(2) by (simp add: is_day_text_def)
    ultimately show ?thesis by blast
  qed
  have a3: "?P [a, b]" if "one_of ''0'' a" "one_of ''123456789'' b" for a b
    using that unfolding one_of_def ascii_def
    by (simp; elim disjE; simp add: text_eval d is_day_text_def)
  have a4: "?P [a]" if "one_of ''123456789'' a" for a
    using that unfolding one_of_def ascii_def
    by (simp; elim disjE; simp add: text_eval d is_day_text_def)
  have a5: "?P [a, b]" if "one_of '' '' a" "one_of ''123456789'' b" for a b
    using that unfolding one_of_def ascii_def
    by (simp; elim disjE; simp add: text_eval d is_day_text_def)
  from assms(2) show ?thesis
    unfolding re_d_def set_append Un_iff re_two_iff re_one_iff
    using a1 a2 a3 a4 a5 by (elim disjE exE conjE) simp_all
qed

lemma small_day_cases:
  "1 \<le> d \<Longrightarrow> d < 10 \<Longrightarrow> d \<in> set [1, 2, 3, 4, 5, 6, 7, 8, 9 :: int]"
  by simp arith

lemma re_d_complete:
  assumes "decimal_table dec" and "is_day_text dec d D"
  shows "(\<exists>others. re_d dec D = (D, []) # others) \<and> py_int dec D = Inr d"
proof -
  note da = dec_ascii [OF assms(1)]
  from assms(2) consider
      (small) "1 \<le> d" "d < 10" "D \<in> set [[48 + nat d], [48, 48 + nat d], [32, 48 + nat d]]"
    | (thirty) "30 \<le> d" "d \<le> 31" "D = [51, 48 + nat (d - 30)]"
    | (two) a b where "D = [a, b]" "a = 49 \<or> a = 50" "digit dec b"
        "10 * (int a - 48) + dval dec b = d"
    unfolding is_day_text_def by (auto split: list.splits)
  then show ?thesis
  proof cases
    case small
    from small_day_cases [OF small(1,2), simplified] small(3) da show ?thesis
      by (elim disjE) (auto simp: text_eval re_d_def one_of_def ascii_def)
  next
    case thirty
    then have "d = 30 \<or> d = 31" by arith
    with thirty(3) da show ?thesis
      by (elim disjE) (auto simp: text_eval re_d_def one_of_def ascii_def)
  next
    case two
    from two(2) have a: "digit dec a" "dval dec a = int a - 48"
      by (auto simp: digit_def dval_def da)
    have "py_int dec D = Inr d"
      using py_int_two [OF assms(1) a(1) two(3)] a(2) two(1,4) by simp
    moreover have "\<exists>others. re_d dec D = (D, []) # others"
      using two(1,2,3) by (auto simp: re_d_def one_of_def ascii_def)
    ultimately show ?thesis by blast
  qed
qed

lemma format_regex_sound:
  assumes "decimal_table dec" and "(Y, M, D, r) \<in> set (format_regex dec s)"
  shows "s = Y @ 45 # M @ 45 # D @ r \<and> length Y = 4 \<and> list_all (digit dec) Y
    \<and> py_int dec M = Inr (ascii_value M) \<and> M \<in> set (month_texts (ascii_value M))
    \<and> (\<exists>d. py_int dec D = Inr d \<and> is_day_text dec d D)"
proof -
  from assms(2) obtain r1 r2 r3 r4 where
    "(Y, r1) \<in> set (re_Y dec s)" "r2 \<in> set (re_lit 45 r1)" "(M, r3) \<in> set (re_m r2)"
    "r4 \<in> set (re_lit 45 r3)" "(D, r) \<in> set (re_d dec r4)"
    by (auto simp: format_regex_def)
  then show ?thesis
    using re_Y_sound [of Y r1 dec s] re_m_sound [OF assms(1), of M r3 r2]
      re_d_sound [OF assms(1), of D r r4]
    by (simp add: re_lit_iff)
qed

lemma format_regex_complete:
  assumes "decimal_table dec" and "length Y = 4" and "list_all (digit dec) Y"
    and "1 \<le> m" and "m \<le> 12" and "M \<in> set (month_texts m)" and "is_day_text dec d D"
  shows "\<exists>others. format_regex dec (Y @ 45 # M @ 45 # D) = (Y, M, D, []) # others"
proof -
  from re_d_complete [OF assms(1,7)] obtain others where d: "re_d dec D = (D, []) # others"
    by blast
  have Y: "re_Y dec (Y @ 45 # M @ 45 # D) = [(Y, 45 # M @ 45 # D)]"
    using assms(2,3) by (rule re_Y_complete)
  have "format_regex dec (Y @ 45 # M @ 45 # D) =
      (Y, M, D, []) # map (\<lambda>(d, r5). (Y, M, d, r5)) others"
    unfolding format_regex_def Y
    by (simp add: re_m_complete [OF assms(1,4,5,6)] d)
  then show ?thesis by blast
qed

lemma date_text_iff:
  "date_text dec dt s \<longleftrightarrow>
     (\<exists>Y M D. s = Y @ 45 # M @ 45 # D \<and> is_year_text dec (year dt) Y
        \<and> M \<in> set (month_texts (month dt)) \<and> is_day_text dec (day dt) D)"
proof
  assume "date_text dec dt s"
  then obtain M where M: "M \<in> set (month_texts (month dt))"
    and y: "is_year_text dec (year dt) (take 4 s)"
    and t: "take (length M + 2) (drop 4 s) = 45 # M @ [45]"
    and d: "is_day_text dec (day dt) (drop (length M + 6) s)"
    by (auto simp: date_text_def list_ex_iff)
  have a: "take 4 s @ drop 4 s = s" by (rule append_take_drop_id)
  have b: "take (length M + 2) (drop 4 s) @ drop (length M + 2) (drop 4 s) = drop 4 s"
    by (rule append_take_drop_id)
  have c: "drop (length M + 2) (drop 4 s) = drop (length M + 6) s"
    by (simp add: add.commute)
  from b have "drop 4 s = (45 # M @ [45]) @ drop (length M + 6) s"
    unfolding t c by (rule sym)
  with a have "s = take 4 s @ 45 # M @ 45 # drop (length M + 6) s"
    by (metis append.simps append_assoc)
  with M y d show "\<exists>Y M D. s = Y @ 45 # M @ 45 # D \<and> is_year_text dec (year dt) Y
        \<and> M \<in> set (month_texts (month dt)) \<and> is_day_text dec (day dt) D"
    by blast
next
  assume "\<exists>Y M D. s = Y @ 45 # M @ 45 # D \<and> is_year_text dec (year dt) Y
        \<and> M \<in> set (month_texts (month dt)) \<and> is_day_text dec (day dt) D"
  then obtain Y M D where s: "s = Y @ 45 # M @ 45 # D" and y: "is_year_text dec (year dt) Y"
    and M: "M \<in> set (month_texts (month dt))" and d: "is_day_text dec (day dt) D"
    by blast
  from y have l: "length Y = 4" by (simp add: is_year_text_def)
  have "take 4 s = Y" "take (length M + 2) (drop 4 s) = 45 # M @ [45]"
    "drop (length M + 6) s = D"
    using l by (simp_all add: s)
  with y M d show "date_text dec dt s"
    unfolding date_text_def list_ex_iff by (intro bexI [of _ M]) simp_all
qed

lemma new_date_Inr:
  "new_date y m d = Inr dt \<longleftrightarrow> valid_date dt \<and> dt = \<lparr>year = y, month = m, day = d\<rparr>"
  by (auto simp: new_date_def valid_date_def)

lemma parse_date_Inr: "parse_date dec s = Inr dt \<longleftrightarrow> strptime dec s = Inr dt"
  by (auto simp: parse_date_def split: sum.splits error.splits)

lemma py_int_error: "py_int dec t = Inl e \<Longrightarrow> \<exists>msg. e = ValueError msg"
  by (auto simp: py_int_def Let_def split: if_splits)

lemma strptime_error: "strptime dec s = Inl e \<Longrightarrow> \<exists>msg. e = ValueError msg"
proof -
  assume a: "strptime dec s = Inl e"
  have n: "new_date y m d = Inl e \<Longrightarrow> \<exists>msg. e = ValueError msg" for y m d
    by (auto simp: new_date_def split: if_splits)
  have b: "bind x f = Inl e \<Longrightarrow> x = Inl e \<or> (\<exists>v. x = Inr v \<and> f v = Inl e)"
    for x :: "error + int" and f :: "int \<Rightarrow> error + date"
    by (cases x) auto
  from a show ?thesis
    unfolding strptime_def
    by (auto split: list.splits if_splits dest!: b dest: py_int_error n)
qed

lemma parse_date_error:
  "parse_date dec s = Inl e \<Longrightarrow>
     e = ValueError (ascii ''Invalid date format: '' @ s @ ascii '', expected YYYY-MM-DD'')"
  using strptime_error [of dec s]
  by (auto simp: parse_date_def split: sum.splits error.splits)

lemma parse_date_sound:
  assumes "decimal_table dec" and "parse_date dec s = Inr dt"
  shows "valid_date dt \<and> date_text dec dt s"
proof -
  from assms(2) have st: "strptime dec s = Inr dt" by (simp add: parse_date_Inr)
  then obtain Y M D others where f: "format_regex dec s = (Y, M, D, []) # others"
    and n: "bind (py_int dec Y) (\<lambda>year. bind (py_int dec M) (\<lambda>month.
      bind (py_int dec D) (\<lambda>day. new_date year month day))) = Inr dt"
    by (auto simp: strptime_def split: list.splits if_splits)
  from f have "(Y, M, D, []) \<in> set (format_regex dec s)" by simp
  from format_regex_sound [OF assms(1) this] obtain d
    where s: "s = Y @ 45 # M @ 45 # D" and Y: "length Y = 4" "list_all (digit dec) Y"
    and M: "py_int dec M = Inr (ascii_value M)" "M \<in> set (month_texts (ascii_value M))"
    and D: "py_int dec D = Inr d" "is_day_text dec d D"
    by auto
  from Y have "Y \<noteq> []" by auto
  from py_int_digits [OF assms(1) this Y(2)]
  have Yv: "py_int dec Y = Inr (decimal_value dec Y)" .
  from n have "new_date (decimal_value dec Y) (ascii_value M) d = Inr dt"
    by (simp add: Yv M(1) D(1))
  then have v: "valid_date dt"
    and dt: "dt = \<lparr>year = decimal_value dec Y, month = ascii_value M, day = d\<rparr>"
    unfolding new_date_Inr by blast+
  have "is_year_text dec (year dt) Y" using Y by (simp add: is_year_text_def dt)
  moreover have "M \<in> set (month_texts (month dt))" using M(2) by (simp add: dt)
  moreover have "is_day_text dec (day dt) D" using D(2) by (simp add: dt)
  ultimately have "date_text dec dt s" unfolding date_text_iff using s by blast
  with v show ?thesis by simp
qed

lemma parse_date_complete:
  assumes "decimal_table dec" and "valid_date dt" and "date_text dec dt s"
  shows "parse_date dec s = Inr dt"
proof -
  from assms(3) obtain Y M D where s: "s = Y @ 45 # M @ 45 # D"
    and Y: "is_year_text dec (year dt) Y" and M: "M \<in> set (month_texts (month dt))"
    and D: "is_day_text dec (day dt) D"
    unfolding date_text_iff by blast
  from Y have Yl: "length Y = 4" "list_all (digit dec) Y" "decimal_value dec Y = year dt"
    by (simp_all add: is_year_text_def)
  from assms(2) have m: "1 \<le> month dt" "month dt \<le> 12" by (simp_all add: valid_date_def)
  from format_regex_complete [OF assms(1) Yl(1,2) m M D] obtain others
    where f: "format_regex dec s = (Y, M, D, []) # others"
    unfolding s by blast
  from Yl(1) have "Y \<noteq> []" by auto
  from py_int_digits [OF assms(1) this Yl(2)] Yl(3)
  have "py_int dec Y = Inr (year dt)" by simp
  moreover have "py_int dec M = Inr (month dt)"
    using re_m_complete [OF assms(1) m M] by blast
  moreover have "py_int dec D = Inr (day dt)"
    using re_d_complete [OF assms(1) D] by blast
  ultimately have "strptime dec s = new_date (year dt) (month dt) (day dt)"
    by (simp add: strptime_def f)
  also have "\<dots> = Inr dt" using assms(2) by (simp add: new_date_Inr)
  finally show ?thesis by (simp add: parse_date_Inr)
qed

lemma days_in_month_le_31: "1 \<le> m \<Longrightarrow> m \<le> 12 \<Longrightarrow> days_in_month y m \<le> 31"
  using month_cases [of m, simplified]
  by (auto simp: days_in_month_def DAYS_IN_MONTH_def)

lemma list10:
  "length s = 10 \<Longrightarrow> \<exists>c0 c1 c2 c3 c4 c5 c6 c7 c8 c9. s = [c0, c1, c2, c3, c4, c5, c6, c7, c8, c9]"
  by (auto simp: eval_nat_numeral length_Suc_conv)

lemma ascii_digit:
  assumes "decimal_table dec" and "one_of ''0123456789'' c"
  shows "digit dec c" and "dval dec c = int c - 48" and "48 \<le> c" and "c \<le> 57"
  using assms(2) dec_ascii [OF assms(1)] unfolding one_of_def ascii_def
  by (simp_all add: digit_def dval_def; elim disjE; simp)+

lemma two_digit_month:
  assumes "one_of ''0123456789'' a" "one_of ''0123456789'' b"
    "1 \<le> ascii_value [a, b]" "ascii_value [a, b] \<le> 12"
  shows "[a, b] \<in> set (month_texts (ascii_value [a, b]))"
  using assms unfolding one_of_def ascii_def by (simp; elim disjE; simp add: text_eval)

lemma two_digit_day:
  assumes "decimal_table dec" "one_of ''0123456789'' a" "one_of ''0123456789'' b"
    "1 \<le> ascii_value [a, b]" "ascii_value [a, b] \<le> 31"
  shows "is_day_text dec (ascii_value [a, b]) [a, b]"
  using assms(2-5) dec_ascii [OF assms(1)] unfolding one_of_def ascii_def
  by (simp; elim disjE; simp add: text_eval is_day_text_def)

lemma four_digit_year:
  assumes "decimal_table dec" "one_of ''0123456789'' a" "one_of ''0123456789'' b"
    "one_of ''0123456789'' c" "one_of ''0123456789'' d"
  shows "is_year_text dec (ascii_value [a, b, c, d]) [a, b, c, d]"
    and "ascii_value [a, b, c, d] \<le> 9999"
proof -
  note f = ascii_digit [OF assms(1,2)] ascii_digit [OF assms(1,3)] ascii_digit [OF assms(1,4)]
    ascii_digit [OF assms(1,5)]
  show "is_year_text dec (ascii_value [a, b, c, d]) [a, b, c, d]"
    using f by (simp add: is_year_text_def decimal_value_def ascii_value_def)
  show "ascii_value [a, b, c, d] \<le> 9999"
    using f by (simp add: ascii_value_def)
qed

lemma strict_parses:
  assumes "decimal_table dec" and "spec_strict_ymd s" and "1 \<le> ascii_value (take 4 s)"
  shows "parse_date dec s =
    Inr \<lparr>year = ascii_value (take 4 s), month = ascii_value (take 2 (drop 5 s)),
         day = ascii_value (drop 8 s)\<rparr>"
proof -
  from assms(2) have "length s = 10" by (simp add: spec_strict_ymd_def)
  from list10 [OF this] obtain c0 c1 c2 c3 c4 c5 c6 c7 c8 c9
    where s: "s = [c0, c1, c2, c3, c4, c5, c6, c7, c8, c9]" by blast
  let ?Y = "[c0, c1, c2, c3]" and ?M = "[c5, c6]" and ?D = "[c8, c9]"
  let ?dg = "one_of ''0123456789''"
  from assms(2) have dg: "?dg c0" "?dg c1" "?dg c2" "?dg c3" "?dg c5" "?dg c6" "?dg c8" "?dg c9"
    and sep: "c4 = 45" "c7 = 45"
    and m: "1 \<le> ascii_value ?M" "ascii_value ?M \<le> 12"
    and d: "1 \<le> ascii_value ?D" "ascii_value ?D \<le> days_in_month (ascii_value ?Y) (ascii_value ?M)"
    by (simp_all add: spec_strict_ymd_def s)
  from assms(3) have y1: "1 \<le> ascii_value ?Y" by (simp add: s)
  define dt where "dt = \<lparr>year = ascii_value ?Y, month = ascii_value ?M, day = ascii_value ?D\<rparr>"
  note Y = four_digit_year [OF assms(1) dg(1-4)]
  have v: "valid_date dt" using y1 Y(2) m d by (simp add: valid_date_def dt_def)
  from d(2) days_in_month_le_31 [OF m] have "ascii_value ?D \<le> 31" by (rule order_trans)
  then have D: "is_day_text dec (ascii_value ?D) ?D"
    using two_digit_day [OF assms(1) dg(7,8) d(1)] by simp
  have M: "?M \<in> set (month_texts (ascii_value ?M))"
    using two_digit_month [OF dg(5,6) m] .
  have "s = ?Y @ 45 # ?M @ 45 # ?D" by (simp add: s sep)
  with Y(1) M D have "date_text dec dt s"
    unfolding date_text_iff dt_def by (intro exI [of _ ?Y] exI [of _ ?M] exI [of _ ?D]) simp
  with assms(1) v have "parse_date dec s = Inr dt" by (rule parse_date_complete)
  then show ?thesis by (simp add: dt_def s)
qed

section \<open>Properties of parse_date\<close>

text \<open>
  Claim C4, as stated, fails: \<open>2025-8-1\<close> is not in the strict \<open>YYYY-MM-DD\<close> format
  (its month and day have one digit), and \<open>parse_date\<close> returns the first of August
  2025 for it.
\<close>

theorem parse_date_lenient_counterexample:
  "parse_date some_decimals (ascii ''2025-8-1'') = Inr \<lparr>year = 2025, month = 8, day = 1\<rparr>
   \<and> \<not> spec_strict_ymd (ascii ''2025-8-1'')"
  by (simp add: date_eval spec_strict_ymd_def)

text \<open>
  Claim C4, amended. \<open>parse_date\<close> returns a date exactly for the texts of a valid
  date: four decimal digits, of any script, that give the year \<open>1..9999\<close>, a hyphen, the
  month \<open>1..12\<close> as one ASCII digit or two, a hyphen, and a day of that month as one ASCII
  digit, with an ASCII zero or a blank before it, as 30 or 31, or as an ASCII 1 or 2
  followed by a decimal digit of any script; the date returned is that date. For every
  other string it raises \<open>ValueError\<close> with the message that holds the string. Every
  string in the strict \<open>YYYY-MM-DD\<close> format with a year other than 0000 is accepted.
\<close>

theorem parse_date_accepts:
  assumes "decimal_table dec"
  shows "(parse_date dec s = Inr dt \<longleftrightarrow> valid_date dt \<and> date_text dec dt s)
   \<and> (parse_date dec s = Inl e \<longrightarrow>
        e = ValueError (ascii ''Invalid date format: '' @ s @ ascii '', expected YYYY-MM-DD''))
   \<and> (spec_strict_ymd s \<and> 1 \<le> ascii_value (take 4 s) \<longrightarrow>
        parse_date dec s =
          Inr \<lparr>year = ascii_value (take 4 s), month = ascii_value (take 2 (drop 5 s)),
               day = ascii_value (drop 8 s)\<rparr>)"
  using parse_date_sound [OF assms, of s dt] parse_date_complete [OF assms, of dt s]
    parse_date_error [of dec s e] strict_parses [OF assms, of s]
  by blast

lemma decimal_table_some_decimals: "decimal_table some_decimals"
  by (simp add: decimal_table_def some_decimals_def ascii_def)

text \<open>
  The three inputs the specification names are rejected, as is the 30th of February; a
  year in fullwidth digits with a day whose second digit is Arabic-Indic is accepted.
\<close>

theorem parse_date_accepts_witness:
  "parse_date some_decimals (ascii ''2025-08-10'') = Inr \<lparr>year = 2025, month = 8, day = 10\<rparr>
   \<and> parse_date some_decimals (ascii ''2025/08/10'') =
       Inl (ValueError (ascii ''Invalid date format: 2025/08/10, expected YYYY-MM-DD''))
   \<and> parse_date some_decimals (ascii ''10-08-2025'') =
       Inl (ValueError (ascii ''Invalid date format: 10-08-2025, expected YYYY-MM-DD''))
   \<and> parse_date some_decimals (ascii ''not-a-date'') =
       Inl (ValueError (ascii ''Invalid date format: not-a-date, expected YYYY-MM-DD''))
   \<and> parse_date some_decimals (ascii ''2025-02-30'') =
       Inl (ValueError (ascii ''Invalid date format: 2025-02-30, expected YYYY-MM-DD''))
   \<and> parse_date some_decimals ([65298, 65296, 65298, 65301] @ ascii ''-08-1'' @ [1637]) =
       Inr \<lparr>year = 2025, month = 8, day = 15\<rparr>"
proof -
  note t = decimal_table_some_decimals
  have strict: "spec_strict_ymd (ascii ''2025-08-10'')"
    "1 \<le> ascii_value (take 4 (ascii ''2025-08-10''))"
    by (simp_all add: spec_strict_ymd_def ascii_def one_of_def ascii_value_def date_eval)
  have fails: "isl (parse_date some_decimals (ascii ''2025/08/10''))"
    "isl (parse_date some_decimals (ascii ''10-08-2025''))"
    "isl (parse_date some_decimals (ascii ''not-a-date''))"
    "isl (parse_date some_decimals (ascii ''2025-02-30''))"
    by (simp_all add: date_eval)
  have ex: "valid_date \<lparr>year = 2025, month = 8, day = 15\<rparr>"
    "date_text some_decimals \<lparr>year = 2025, month = 8, day = 15\<rparr>
      ([65298, 65296, 65298, 65301] @ ascii ''-08-1'' @ [1637])"
    by (simp_all add: valid_date_def date_text_def is_year_text_def is_day_text_def
        month_texts_def date_eval)
  have "parse_date some_decimals (ascii ''2025-08-10'') = Inr \<lparr>year = 2025, month = 8, day = 10\<rparr>"
    using parse_date_accepts [OF t, of "ascii ''2025-08-10''"] strict
    by (simp add: ascii_value_def ascii_def)
  moreover have "parse_date some_decimals ([65298, 65296, 65298, 65301] @ ascii ''-08-1'' @ [1637]) =
       Inr \<lparr>year = 2025, month = 8, day = 15\<rparr>"
    using parse_date_accepts [OF t, of "[65298, 65296, 65298, 65301] @ ascii ''-08-1'' @ [1637]"
        "\<lparr>year = 2025, month = 8, day = 15\<rparr>"] ex
    by blast
  moreover have g: "parse_date some_decimals s =
      Inl (ValueError (ascii ''Invalid date format: '' @ s @ ascii '', expected YYYY-MM-DD''))"
    if "isl (parse_date some_decimals s)" for s
    using parse_date_accepts [OF t, of s _ "projl (parse_date some_decimals s)"] that
    by (cases "parse_date some_decimals s") simp_all
  ultimately show ?thesis
    using g [OF fails(1)] g [OF fails(2)] g [OF fails(3)] g [OF fails(4)]
    by (simp add: ascii_def)
qed

section \<open>Ordinals and days_since_last_active\<close>

lemma div_step:
  fixes y :: int
  assumes "0 < k"
  shows "y div k = (y - 1) div k + (if y mod k = 0 then 1 else 0)"
proof (cases "y mod k = 0")
  case True
  then obtain q where q: "y = k * q" by (auto simp: mod_eq_0_iff_dvd)
  have "(k * q - 1) div k = q - 1"
  proof -
    have "k * q - 1 = (k - 1) + k * (q - 1)" by (simp add: algebra_simps)
    also have "\<dots> div k = (k - 1) div k + (q - 1)" using assms by simp
    also have "(k - 1) div k = 0" using assms by (simp add: div_pos_pos_trivial)
    finally show ?thesis by simp
  qed
  then show ?thesis using True assms by (simp add: q)
next
  case False
  define r where "r = y mod k"
  have r: "0 < r" "r < k"
    using False assms pos_mod_sign [of k y] pos_mod_bound [of k y] unfolding r_def by linarith+
  have y: "y = (r - 1) + 1 + k * (y div k)" by (simp add: r_def)
  have "y - 1 = (r - 1) + k * (y div k)" using y by simp
  then have "(y - 1) div k = ((r - 1) + k * (y div k)) div k" by (rule arg_cong)
  also have "\<dots> = (r - 1) div k + y div k" using assms by simp
  also have "(r - 1) div k = 0" using r by (simp add: div_pos_pos_trivial)
  finally show ?thesis using False by simp
qed

lemma leap_divisors:
  fixes y :: int
  shows "y mod 400 = 0 \<Longrightarrow> y mod 100 = 0" and "y mod 100 = 0 \<Longrightarrow> y mod 4 = 0"
proof -
  assume "y mod 400 = 0"
  then have "400 dvd y" by (simp add: mod_eq_0_iff_dvd)
  moreover have "(100::int) dvd 400" by simp
  ultimately have "100 dvd y" by (rule dvd_trans [rotated])
  then show "y mod 100 = 0" by (simp add: mod_eq_0_iff_dvd)
next
  assume "y mod 100 = 0"
  then have "100 dvd y" by (simp add: mod_eq_0_iff_dvd)
  moreover have "(4::int) dvd 100" by simp
  ultimately have "4 dvd y" by (rule dvd_trans [rotated])
  then show "y mod 4 = 0" by (simp add: mod_eq_0_iff_dvd)
qed

lemma days_before_year_step:
  "days_before_year (y + 1) = days_before_year y + (if is_leap y then 366 else 365)"
proof -
  define a4 a100 a400 where "a4 = (y - 1) div 4" and "a100 = (y - 1) div 100"
    and "a400 = (y - 1) div 400"
  define b4 b100 b400 where "b4 = y div 4" and "b100 = y div 100" and "b400 = y div 400"
  have d: "b4 = a4 + (if y mod 4 = 0 then 1 else 0)"
    "b100 = a100 + (if y mod 100 = 0 then 1 else 0)"
    "b400 = a400 + (if y mod 400 = 0 then 1 else 0)"
    unfolding a4_def a100_def a400_def b4_def b100_def b400_def
    by (rule div_step, simp)+
  have e: "days_before_year (y + 1) = y * 365 + b4 - b100 + b400"
    by (simp add: days_before_year_def b4_def b100_def b400_def)
  have f: "days_before_year y = (y - 1) * 365 + a4 - a100 + a400"
    by (simp add: days_before_year_def Let_def a4_def a100_def a400_def)
  show ?thesis
    unfolding e f using d leap_divisors [of y]
    by (cases "y mod 4 = 0"; cases "y mod 100 = 0"; cases "y mod 400 = 0")
      (simp_all add: is_leap_def algebra_simps)
qed

lemma days_before_year_mono: "a \<le> b \<Longrightarrow> days_before_year a \<le> days_before_year b"
proof (induction b rule: int_ge_induct)
  case base
  show ?case by simp
next
  case (step i)
  have "days_before_year i \<le> days_before_year (i + 1)"
    by (simp add: days_before_year_step)
  with step.IH show ?case by simp
qed

lemma days_before_month_step:
  assumes "1 \<le> m" and "m \<le> 11"
  shows "days_before_month y (m + 1) = days_before_month y m + days_in_month y m"
proof -
  from assms have "m \<le> 12" by simp
  from month_cases [OF assms(1) this, simplified] assms(2) show ?thesis
    by (elim disjE)
      (simp_all add: days_before_month_def days_in_month_def DAYS_BEFORE_MONTH_def
        DAYS_IN_MONTH_def)
qed

lemma days_before_month_mono:
  assumes "1 \<le> a" and "a \<le> b" and "b \<le> 12"
  shows "days_before_month y a \<le> days_before_month y b"
  using assms(2,1,3)
proof (induction b rule: int_ge_induct)
  case base
  show ?case by simp
next
  case (step i)
  then have "days_before_month y (i + 1) = days_before_month y i + days_in_month y i"
    by (intro days_before_month_step) simp_all
  moreover have "0 \<le> days_in_month y i"
    using month_cases [of i, simplified] step.prems step.hyps
    by (auto simp: days_in_month_def DAYS_IN_MONTH_def)
  ultimately show ?case using step by simp
qed

lemma year_length:
  assumes "1 \<le> m" and "m \<le> 12"
  shows "days_before_month y m + days_in_month y m \<le> (if is_leap y then 366 else 365)"
    and "0 \<le> days_before_month y m"
  using month_cases [OF assms, simplified]
  by (auto simp: days_before_month_def days_in_month_def DAYS_BEFORE_MONTH_def
      DAYS_IN_MONTH_def)

lemma toordinal_mono:
  assumes "valid_date a" and "valid_date b" and "date_less a b"
  shows "toordinal a < toordinal b"
proof -
  from assms(1) have a: "1 \<le> month a" "month a \<le> 12" "1 \<le> day a"
    "day a \<le> days_in_month (year a) (month a)" by (simp_all add: valid_date_def)
  from assms(2) have b: "1 \<le> month b" "month b \<le> 12" "1 \<le> day b"
    by (simp_all add: valid_date_def)
  consider "year a < year b" | "year a = year b" "month a < month b"
    | "year a = year b" "month a = month b" "day a < day b"
    using assms(3) by (auto simp: date_less_def)
  then show ?thesis
  proof cases
    case 1
    have "toordinal a \<le> days_before_year (year a) + (if is_leap (year a) then 366 else 365)"
      using year_length(1) [OF a(1,2), of "year a"] a(4) by (simp add: toordinal_def)
    also have "\<dots> = days_before_year (year a + 1)" by (simp add: days_before_year_step)
    also have "\<dots> \<le> days_before_year (year b)"
      using 1 by (intro days_before_year_mono) simp
    also have "\<dots> < toordinal b"
      using year_length(2) [OF b(1,2), of "year b"] b(3) by (simp add: toordinal_def)
    finally show ?thesis .
  next
    case 2
    have "days_before_month (year a) (month a) + days_in_month (year a) (month a) =
        days_before_month (year a) (month a + 1)"
      using a(1) 2(2) b(2) by (intro days_before_month_step [symmetric]) simp_all
    also have "\<dots> \<le> days_before_month (year a) (month b)"
      using a(1) 2(2) b(2) by (intro days_before_month_mono) simp_all
    finally show ?thesis using a(4) b(3) 2(1) by (simp add: toordinal_def)
  next
    case 3
    then show ?thesis by (simp add: toordinal_def)
  qed
qed

lemma toordinal_next_day:
  assumes "valid_date dt"
  shows "toordinal (next_day dt) = toordinal dt + 1"
proof -
  from assms have m: "1 \<le> month dt" "month dt \<le> 12"
    and d: "day dt \<le> days_in_month (year dt) (month dt)" by (simp_all add: valid_date_def)
  consider "day dt < days_in_month (year dt) (month dt)"
    | "day dt = days_in_month (year dt) (month dt)" "month dt < 12"
    | "day dt = days_in_month (year dt) (month dt)" "month dt = 12"
    using d m by force
  then show ?thesis
  proof cases
    case 1
    then show ?thesis by (simp add: next_day_def toordinal_def)
  next
    case 2
    then show ?thesis
      using days_before_month_step [of "month dt" "year dt"] m
      by (simp add: next_day_def toordinal_def)
  next
    case 3
    then show ?thesis
      by (simp add: next_day_def toordinal_def days_before_year_step days_before_month_def
          days_in_month_def DAYS_BEFORE_MONTH_def DAYS_IN_MONTH_def)
  qed
qed

lemma date_trichotomy: "date_less a b \<or> a = b \<or> date_less b a"
  by (cases a; cases b) (auto simp: date_less_def)


text \<open>
  Claim C5, as stated, fails: \<open>2025-8-1\<close> is not in the \<open>YYYY-MM-DD\<close> format, and with
  the current date 2025-08-12 the call returns 11 for it where the claim has the error of
  \<open>parse_date\<close>.
\<close>

theorem days_since_last_active_lenient_counterexample:
  "days_since_last_active some_decimals \<lparr>year = 2025, month = 8, day = 12\<rparr>
      (ascii ''2025-8-1'') = Inr 11
   \<and> \<not> spec_strict_ymd (ascii ''2025-8-1'')"
  by (simp add: date_eval spec_strict_ymd_def)

text \<open>
  Claim C5, amended. For every string that is a text of a valid date, as \<open>parse_date\<close>
  reads it, \<open>days_since_last_active\<close> returns the ordinal of the current date minus the
  ordinal of that date; ordinals grow by one from a day to the next, so this is the signed
  number of days between them, negative exactly when the date is after the current date
  and positive exactly when it is before. For every other string it raises the
  \<open>ValueError\<close> of \<open>parse_date\<close>, unchanged. Every string in the strict
  \<open>YYYY-MM-DD\<close> format with a year other than 0000 is a text of its date.
\<close>

theorem days_since_last_active_result:
  assumes "decimal_table dec" and "valid_date today"
  shows "(valid_date dt \<and> date_text dec dt s \<longrightarrow>
            days_since_last_active dec today s = Inr (toordinal today - toordinal dt)
            \<and> (date_less today dt \<longleftrightarrow> toordinal today - toordinal dt < 0)
            \<and> (date_less dt today \<longleftrightarrow> 0 < toordinal today - toordinal dt)
            \<and> toordinal (next_day dt) = toordinal dt + 1)
    \<and> ((\<forall>dt'. \<not> (valid_date dt' \<and> date_text dec dt' s)) \<longrightarrow>
          parse_date dec s =
              Inl (ValueError
                (ascii ''Invalid date format: '' @ s @ ascii '', expected YYYY-MM-DD''))
          \<and> days_since_last_active dec today s =
              Inl (ValueError
                (ascii ''Invalid date format: '' @ s @ ascii '', expected YYYY-MM-DD'')))
    \<and> (spec_strict_ymd s \<and> 1 \<le> ascii_value (take 4 s) \<longrightarrow>
          days_since_last_active dec today s =
            Inr (toordinal today
              - toordinal \<lparr>year = ascii_value (take 4 s),
                  month = ascii_value (take 2 (drop 5 s)), day = ascii_value (drop 8 s)\<rparr>))"
proof (intro conjI impI)
  assume a: "valid_date dt \<and> date_text dec dt s"
  then have p: "parse_date dec s = Inr dt"
    using parse_date_complete [OF assms(1)] by blast
  then show "days_since_last_active dec today s = Inr (toordinal today - toordinal dt)"
    by (simp add: days_since_last_active_def)
  from a have v: "valid_date dt" by simp
  then show "toordinal (next_day dt) = toordinal dt + 1" by (rule toordinal_next_day)
  have lt: "toordinal x < toordinal y" if "date_less x y" "valid_date x" "valid_date y" for x y
    using that toordinal_mono by blast
  show "date_less today dt \<longleftrightarrow> toordinal today - toordinal dt < 0"
    using lt [of today dt] lt [of dt today] date_trichotomy [of today dt] assms(2) v by auto
  show "date_less dt today \<longleftrightarrow> 0 < toordinal today - toordinal dt"
    using lt [of today dt] lt [of dt today] date_trichotomy [of today dt] assms(2) v by auto
next
  assume n: "\<forall>dt'. \<not> (valid_date dt' \<and> date_text dec dt' s)"
  have "\<exists>e. parse_date dec s = Inl e"
  proof (cases "parse_date dec s")
    case (Inl e)
    then show ?thesis by blast
  next
    case (Inr d)
    with parse_date_sound [OF assms(1)] n show ?thesis by blast
  qed
  then obtain e where e: "parse_date dec s = Inl e" by blast
  from parse_date_error [OF e] e
  show p: "parse_date dec s =
      Inl (ValueError (ascii ''Invalid date format: '' @ s @ ascii '', expected YYYY-MM-DD''))"
    by simp
  then show "days_since_last_active dec today s =
      Inl (ValueError (ascii ''Invalid date format: '' @ s @ ascii '', expected YYYY-MM-DD''))"
    by (simp add: days_since_last_active_def)
next
  assume "spec_strict_ymd s \<and> 1 \<le> ascii_value (take 4 s)"
  then have "parse_date dec s =
    Inr \<lparr>year = ascii_value (take 4 s), month = ascii_value (take 2 (drop 5 s)),
         day = ascii_value (drop 8 s)\<rparr>"
    using strict_parses [OF assms(1)] by blast
  then show "days_since_last_active dec today s =
      Inr (toordinal today
        - toordinal \<lparr>year = ascii_value (take 4 s),
            month = ascii_value (take 2 (drop 5 s)), day = ascii_value (drop 8 s)\<rparr>)"
    by (simp add: days_since_last_active_def)
qed

text \<open>With the current date 2025-08-12: two days since 2025-08-10, minus twenty for 2025-09-01.\<close>

theorem days_since_last_active_result_witness:
  "days_since_last_active some_decimals \<lparr>year = 2025, month = 8, day = 12\<rparr>
      (ascii ''2025-08-10'') = Inr 2
   \<and> days_since_last_active some_decimals \<lparr>year = 2025, month = 8, day = 12\<rparr>
      (ascii ''2025-09-01'') = Inr (- 20)
   \<and> days_since_last_active some_decimals \<lparr>year = 2025, month = 8, day = 12\<rparr>
      (ascii ''2025/08/10'') =
       Inl (ValueError (ascii ''Invalid date format: 2025/08/10, expected YYYY-MM-DD''))"
proof -
  let ?today = "\<lparr>year = 2025, month = 8, day = 12\<rparr>"
  have v: "valid_date ?today"
    by (simp add: valid_date_def date_eval)
  have strict: "spec_strict_ymd (ascii ''2025-08-10'')"
    "1 \<le> ascii_value (take 4 (ascii ''2025-08-10''))"
    "spec_strict_ymd (ascii ''2025-09-01'')"
    "1 \<le> ascii_value (take 4 (ascii ''2025-09-01''))"
    by (simp_all add: spec_strict_ymd_def ascii_def one_of_def ascii_value_def date_eval)
  have p: "parse_date some_decimals (ascii ''2025/08/10'') =
       Inl (ValueError (ascii ''Invalid date format: 2025/08/10, expected YYYY-MM-DD''))"
    by (simp add: date_eval)
  have no: "\<forall>dt'. \<not> (valid_date dt' \<and> date_text some_decimals dt' (ascii ''2025/08/10''))"
    using parse_date_complete [OF decimal_table_some_decimals, of _ "ascii ''2025/08/10''"] p
    by auto
  have o: "toordinal ?today = 739475"
    "toordinal \<lparr>year = 2025, month = 8, day = 10\<rparr> = 739473"
    "toordinal \<lparr>year = 2025, month = 9, day = 1\<rparr> = 739495"
    by (simp_all add: date_eval)
  note r = days_since_last_active_result [OF decimal_table_some_decimals v]
  have "days_since_last_active some_decimals ?today (ascii ''2025-08-10'') = Inr 2"
    using r [of _ "ascii ''2025-08-10''"] strict(1,2) o
    by (simp add: ascii_value_def ascii_def)
  moreover have "days_since_last_active some_decimals ?today (ascii ''2025-09-01'') = Inr (- 20)"
    using r [of _ "ascii ''2025-09-01''"] strict(3,4) o
    by (simp add: ascii_value_def ascii_def)
  moreover have "days_since_last_active some_decimals ?today (ascii ''2025/08/10'') =
       Inl (ValueError (ascii ''Invalid date format: 2025/08/10, expected YYYY-MM-DD''))"
    using r [of _ "ascii ''2025/08/10''"] no p by simp
  ultimately show ?thesis by simp
qed

section \<open>Properties of the endpoint\<close>

lemma KumoClient_predict_result:
  assumes "0 \<le> u" and "u \<le> 1" and "i < 3"
  shows "\<exists>r a. KumoClient_predict u i features =
      Inr [''engagement_score'' \<mapsto> FloatV r, ''recommended_action'' \<mapsto> StrV a]"
proof -
  have "(of_int 0 :: rat) \<le> of_int (round_half_even (u * 100))"
    "(of_int (round_half_even (u * 100)) :: rat) \<le> of_int 100"
    unfolding of_int_le_iff using assms(1,2)
    by (intro round_half_even_ge round_half_even_le; simp)+
  then have "(0::rat) \<le> of_int (round_half_even (u * 100)) / 100"
    "(of_int (round_half_even (u * 100)) :: rat) / 100 \<le> 1" by simp_all
  then obtain r where "to_double (of_int (round_half_even (u * 100)) / 100) = Some r"
    using to_double_unit by blast
  then have "KumoClient_predict u i features =
      Inr [''engagement_score'' \<mapsto> FloatV r, ''recommended_action'' \<mapsto> StrV (actions ! i)]"
    using assms(3) by (simp add: KumoClient_predict_def random_choice_def actions_def)
  then show ?thesis by blast
qed

lemma load_users_foldl:
  "foldl (\<lambda>users row. users(row_user_id row \<mapsto> to_dict row)) m rows uid = Some r \<Longrightarrow>
     m uid = Some r \<or> (\<exists>row\<in>set rows. row_user_id row = uid \<and> r = to_dict row)"
  by (induction rows arbitrary: m) (fastforce split: if_splits)+

lemma load_users_Some:
  assumes "load_users rows uid = Some r"
  shows "r ''user_id'' = Some (IntV uid) \<and> r \<noteq> Map.empty"
proof -
  from load_users_foldl [of Map.empty rows uid r] assms
  obtain row where "row_user_id row = uid" "r = to_dict row"
    by (auto simp: load_users_def)
  then have "r ''user_id'' = Some (IntV uid)" by (simp add: to_dict_def)
  then show ?thesis by auto
qed

text \<open>
  Claim C8. With the user table loaded from any rows and the mock client (any draw in
  \<open>[0, 1]\<close>, any index below 3): when \<open>user_id\<close> is not a key of the table the response
  is status 404 with the body \<open>{"error": "User not found"}\<close>; when it is a key the
  response is status 200 with exactly the entries \<open>user_id\<close>, the requested integer,
  \<open>action\<close>, a string, and \<open>score\<close>, a float.
\<close>

theorem recommend_endpoint_status:
  assumes "0 \<le> u" and "u \<le> 1" and "i < 3"
  shows "(load_users rows uid = None \<longrightarrow>
            recommend_endpoint (load_users rows) (KumoClient_predict u i) uid =
              Inr ([''error'' \<mapsto> StrV ''User not found''], 404))
    \<and> (load_users rows uid \<noteq> None \<longrightarrow>
          (\<exists>a s. recommend_endpoint (load_users rows) (KumoClient_predict u i) uid =
              Inr ([''user_id'' \<mapsto> IntV uid, ''action'' \<mapsto> StrV a, ''score'' \<mapsto> FloatV s], 200)))"
proof (intro conjI impI)
  assume "load_users rows uid = None"
  then show "recommend_endpoint (load_users rows) (KumoClient_predict u i) uid =
      Inr ([''error'' \<mapsto> StrV ''User not found''], 404)"
    by (simp add: recommend_endpoint_def)
next
  assume "load_users rows uid \<noteq> None"
  then obtain ud where ud: "load_users rows uid = Some ud" by blast
  from load_users_Some [OF this] have k: "ud ''user_id'' = Some (IntV uid)" "ud \<noteq> Map.empty"
    by simp_all
  from KumoClient_predict_result [OF assms, of ud] obtain r a where
    p: "KumoClient_predict u i ud =
      Inr [''engagement_score'' \<mapsto> FloatV r, ''recommended_action'' \<mapsto> StrV a]"
    by blast
  have "recommend (KumoClient_predict u i) ud =
      Inr [''user_id'' \<mapsto> IntV uid,
           ''action'' \<mapsto> StrV (if threshold < r then a else ''send_message''),
           ''score'' \<mapsto> FloatV r]"
    using p k(1) by (simp add: recommend_def subscript_def)
  then have "recommend_endpoint (load_users rows) (KumoClient_predict u i) uid =
      Inr ([''user_id'' \<mapsto> IntV uid,
            ''action'' \<mapsto> StrV (if threshold < r then a else ''send_message''),
            ''score'' \<mapsto> FloatV r], 200)"
    using ud k(2) by (simp add: recommend_endpoint_def)
  then show "\<exists>a s. recommend_endpoint (load_users rows) (KumoClient_predict u i) uid =
      Inr ([''user_id'' \<mapsto> IntV uid, ''action'' \<mapsto> StrV a, ''score'' \<mapsto> FloatV s], 200)"
    by blast
qed

theorem recommend_endpoint_status_witness:
  "recommend_endpoint
      (load_users [\<lparr>row_user_id = 1, row_age = 25, row_gender = ''M'',
        row_last_active = ''2025-08-10'', row_interactions = 15, row_purchases = 2\<rparr>])
      (KumoClient_predict (1 / 2) 0) 1 =
     Inr ([''user_id'' \<mapsto> IntV 1, ''action'' \<mapsto> StrV ''send_message'',
           ''score'' \<mapsto> FloatV (1 / 2)], 200)
   \<and> recommend_endpoint
      (load_users [\<lparr>row_user_id = 1, row_age = 25, row_gender = ''M'',
        row_last_active = ''2025-08-10'', row_interactions = 15, row_purchases = 2\<rparr>])
      (KumoClient_predict (1 / 2) 0) 2 =
     Inr ([''error'' \<mapsto> StrV ''User not found''], 404)"
proof -
  let ?rows = "[\<lparr>row_user_id = 1, row_age = 25, row_gender = ''M'',
        row_last_active = ''2025-08-10'', row_interactions = 15, row_purchases = 2\<rparr>]"
  have l: "load_users ?rows 2 = None" "load_users ?rows 1 \<noteq> None"
    by (simp_all add: load_users_def)
  have p: "KumoClient_predict (1 / 2) 0 features =
      Inr [''engagement_score'' \<mapsto> FloatV (1 / 2),
           ''recommended_action'' \<mapsto> StrV ''offer_discount'']" for features
    by (simp add: KumoClient_predict_def random_choice_def actions_def float_eval)
  from recommend_endpoint_status [of "1 / 2" 0 ?rows 2] l(1)
  have "recommend_endpoint (load_users ?rows) (KumoClient_predict (1 / 2) 0) 2 =
      Inr ([''error'' \<mapsto> StrV ''User not found''], 404)"
    by simp
  moreover have "recommend_endpoint (load_users ?rows) (KumoClient_predict (1 / 2) 0) 1 =
     Inr ([''user_id'' \<mapsto> IntV 1, ''action'' \<mapsto> StrV ''send_message'',
           ''score'' \<mapsto> FloatV (1 / 2)], 200)"
    by (simp add: recommend_endpoint_def load_users_def to_dict_def recommend_def p
        subscript_def threshold_def)
  ultimately show ?thesis by simp
qed

section \<open>recommend leaves its argument unchanged\<close>

lemma take_frame:
  assumes "take (length h) h1 = h"
  shows "length h \<le> length h1" and "a < length h \<Longrightarrow> h1 ! a = h ! a"
    and "take (length h) (h1 @ xs) = h"
proof -
  have "length (take (length h) h1) = length h" using assms by simp
  then show le: "length h \<le> length h1" by simp
  show "h1 ! a = h ! a" if "a < length h"
    using nth_take [of a "length h" h1] that assms by simp
  show "take (length h) (h1 @ xs) = h" using le assms by simp
qed

lemma KumoClient_predict_st_frame:
  "take (length h) (snd (KumoClient_predict_st u i a h)) = h"
  by (simp add: KumoClient_predict_st_def alloc_def split: sum.splits)

lemma recommend_st_heap:
  "snd (recommend_st kumo a h) = snd (kumo a h)
   \<or> (\<exists>d. snd (recommend_st kumo a h) = snd (kumo a h) @ [d])"
  by (auto simp: recommend_st_def alloc_def split: prod.splits sum.splits)

text \<open>
  Claim C9. The record passed to \<open>recommend\<close> is the same, key for key and value for
  value, after the call as before it, and so is every other object that existed before
  the call, whenever the client leaves the existing objects as they are; the mock client
  does (lemma \<open>KumoClient_predict_st_frame\<close>). This holds on every path, also when the
  call raises.
\<close>

theorem recommend_frame:
  assumes "user_data < length h"
    and "\<And>a h0. take (length h0) (snd (kumo a h0)) = h0"
  shows "snd (recommend_st kumo user_data h) ! user_data = h ! user_data
    \<and> take (length h) (snd (recommend_st kumo user_data h)) = h"
proof -
  have k: "take (length h) (snd (kumo user_data h)) = h" by (rule assms(2))
  have t: "take (length h) (snd (recommend_st kumo user_data h)) = h"
  proof -
    from recommend_st_heap [of kumo user_data h] show ?thesis
    proof (elim disjE exE)
      assume "snd (recommend_st kumo user_data h) = snd (kumo user_data h)"
      with k show ?thesis by (simp only:)
    next
      fix d
      assume "snd (recommend_st kumo user_data h) = snd (kumo user_data h) @ [d]"
      with take_frame(3) [OF k, of "[d]"] show ?thesis by (simp only:)
    qed
  qed
  from take_frame(2) [OF t assms(1)] t show ?thesis by simp
qed

text \<open>Over the store, the call with the mock client returns what \<open>recommend\<close> returns.\<close>

lemma recommend_st_returns:
  assumes "a < length h"
  shows "returned (recommend_st (KumoClient_predict_st u i) a h) =
    recommend (KumoClient_predict u i) (h ! a)"
proof (cases "KumoClient_predict u i (h ! a)")
  case (Inl e)
  then show ?thesis
    by (simp add: returned_def recommend_st_def KumoClient_predict_st_def recommend_def
        KumoClient_predict_def)
next
  case (Inr p)
  then have st: "KumoClient_predict_st u i a h = (Inr (length h), h @ [p])"
    by (simp add: KumoClient_predict_st_def KumoClient_predict_def alloc_def)
  show ?thesis
    using assms Inr
    by (simp add: returned_def recommend_st_def st recommend_def alloc_def nth_append
        split: sum.splits cong: if_cong)
qed

theorem recommend_frame_witness:
  "snd (recommend_st (KumoClient_predict_st (1 / 2) 0) 0
        [[''user_id'' \<mapsto> IntV 1, ''age'' \<mapsto> IntV 25]]) ! 0 =
     [''user_id'' \<mapsto> IntV 1, ''age'' \<mapsto> IntV 25]
   \<and> returned (recommend_st (KumoClient_predict_st (1 / 2) 0) 0
        [[''user_id'' \<mapsto> IntV 1, ''age'' \<mapsto> IntV 25]]) =
     Inr [''user_id'' \<mapsto> IntV 1, ''action'' \<mapsto> StrV ''send_message'',
          ''score'' \<mapsto> FloatV (1 / 2)]"
proof -
  let ?h = "[[''user_id'' \<mapsto> IntV 1, ''age'' \<mapsto> IntV 25]]"
  have "snd (recommend_st (KumoClient_predict_st (1 / 2) 0) 0 ?h) ! 0 = ?h ! 0"
    using recommend_frame [of 0 ?h "KumoClient_predict_st (1 / 2) 0"]
      KumoClient_predict_st_frame by simp
  moreover have "returned (recommend_st (KumoClient_predict_st (1 / 2) 0) 0 ?h) =
     Inr [''user_id'' \<mapsto> IntV 1, ''action'' \<mapsto> StrV ''send_message'',
          ''score'' \<mapsto> FloatV (1 / 2)]"
    by (simp add: recommend_st_returns recommend_def KumoClient_predict_def random_choice_def
        actions_def float_eval subscript_def threshold_def)
  ultimately show ?thesis by simp
qed

end

